theory Spec2Isabelle
  imports Main "HOL-Library.AList" "HOL-Library.Sublist"
begin

section \<open>Values and promises\<close>

text \<open>
  \<^verbatim>\<open>Router\<close> is a JavaScript class whose objects are shared by reference and mutated
  in place. The model keeps the objects in a store indexed by
  object identity and passes the store through every method.

  A URL-valued field or argument is a string or \<^verbatim>\<open>undefined\<close>; it is modelled as
  \<open>string option\<close> with \<open>None\<close> for \<^verbatim>\<open>undefined\<close>. On such values the loose
  comparison \<^verbatim>\<open>==\<close> of the source is equality. The same type models an optional
  string argument (\<^verbatim>\<open>name = 'default'\<close>).
\<close>

type_synonym rid = nat
type_synonym gref = nat
type_synonym pref = nat
type_synonym view = nat
type_synonym url = "string option"

datatype jsval = Undefined | Null | Bool bool | Str string

text \<open>JavaScript truthiness, as used by \<^verbatim>\<open>||\<close>, \<^verbatim>\<open>!\<close> and \<^verbatim>\<open>?:\<close>.\<close>

fun truthy :: "jsval \<Rightarrow> bool" where
  "truthy Undefined = False"
| "truthy Null = False"
| "truthy (Bool b) = b"
| "truthy (Str s) = (s \<noteq> [])"

fun url_value :: "url \<Rightarrow> jsval" where
  "url_value None = Undefined"
| "url_value (Some s) = Str s"

definition url_truthy :: "url \<Rightarrow> bool" where
  "url_truthy u = truthy (url_value u)"



text \<open>A settled promise: fulfilled with a value or rejected with a reason.
  \<^verbatim>\<open>Promise.resolve()\<close> is \<open>Resolved Undefined\<close>, \<^verbatim>\<open>Promise.reject()\<close> is
  \<open>Rejected Undefined\<close>.\<close>

datatype outcome = is_resolved: Resolved jsval | Rejected jsval

text \<open>What a view's \<^verbatim>\<open>canDeactivate\<close> hands back: a plain value or a promise.\<close>

datatype reply = Value jsval | Promise outcome

text \<open>\<^verbatim>\<open>function boolToPromise (value) { return value ? Promise.resolve(value) : Promise.reject(); }\<close>
  A promise object is truthy, and \<^verbatim>\<open>Promise.resolve\<close> of a promise is that promise.\<close>

fun boolToPromise :: "reply \<Rightarrow> outcome" where
  "boolToPromise (Value v) = (if truthy v then Resolved v else Rejected Undefined)"
| "boolToPromise (Promise p) = p"

section \<open>Dictionaries\<close>

text \<open>
  The dictionaries of the source (\<^verbatim>\<open>this.ports = {}\<close>, \<^verbatim>\<open>this.children = {}\<close>, and
  \<^verbatim>\<open>instruction.viewports\<close>) are plain objects. Such an object is modelled by the
  association list of its own properties, in the order in which \<^verbatim>\<open>Object.keys\<close> lists
  them: first the keys that are array indices, in ascending numeric order, then the other
  keys in the order in which they were added.

  Reading \<^verbatim>\<open>obj[key]\<close> finds an own property, or else a member that the object inherits
  from \<^verbatim>\<open>Object.prototype\<close>, or else \<^verbatim>\<open>undefined\<close>. Every inherited member is a function,
  but for \<^verbatim>\<open>__proto__\<close>, which reads as the prototype object; all of them are truthy, and
  none of them has a property named like a method of the router.
\<close>

datatype 'a property = Own 'a | Inherited string

definition prototype_members :: "string list" where
  "prototype_members =
     [''constructor'', ''hasOwnProperty'', ''isPrototypeOf'', ''propertyIsEnumerable'',
      ''toLocaleString'', ''toString'', ''valueOf'', ''__proto__'', ''__defineGetter__'',
      ''__defineSetter__'', ''__lookupGetter__'', ''__lookupSetter__'']"

text \<open>\<^verbatim>\<open>obj[key]\<close>, with \<open>None\<close> for \<^verbatim>\<open>undefined\<close>.\<close>

definition obj_get :: "(string \<times> 'a) list \<Rightarrow> string \<Rightarrow> 'a property option" where
  "obj_get obj key =
     (case map_of obj key of
        Some x \<Rightarrow> Some (Own x)
      | None \<Rightarrow> if key \<in> set prototype_members then Some (Inherited key) else None)"

text \<open>An array index is the decimal numeral, without leading zeros, of a number below
  \<open>2\<^sup>3\<^sup>2 - 1\<close>.\<close>

definition digit :: "char \<Rightarrow> bool" where
  "digit c \<longleftrightarrow> c \<in> set ''0123456789''"

definition decimal :: "string \<Rightarrow> nat" where
  "decimal s = foldl (\<lambda>n c. 10 * n + (of_char c - 48)) 0 s"

definition array_index :: "string \<Rightarrow> nat option" where
  "array_index s =
     (if s \<noteq> [] \<and> list_all digit s \<and> (s = ''0'' \<or> hd s \<noteq> CHR ''0'') \<and>
         decimal s < 2 ^ 32 - 1
      then Some (decimal s) else None)"

text \<open>Whether a new key \<open>k\<close> is listed before the key \<open>k'\<close> that is already there.\<close>

definition precedes :: "string \<Rightarrow> string \<Rightarrow> bool" where
  "precedes k k' =
     (case array_index k of
        None \<Rightarrow> False
      | Some i \<Rightarrow> (case array_index k' of None \<Rightarrow> True | Some j \<Rightarrow> i < j))"

fun insert_key :: "string \<Rightarrow> 'a \<Rightarrow> (string \<times> 'a) list \<Rightarrow> (string \<times> 'a) list" where
  "insert_key k v [] = [(k, v)]"
| "insert_key k v ((k', v') # rest) =
     (if precedes k k' then (k, v) # (k', v') # rest else (k', v') # insert_key k v rest)"

text \<open>\<^verbatim>\<open>obj[key] = v\<close>: an own property keeps its place and gets the value; a new key
  becomes an own property, at its place in the order of \<^verbatim>\<open>Object.keys\<close>. The key
  \<^verbatim>\<open>__proto__\<close> is an accessor of \<^verbatim>\<open>Object.prototype\<close>: assigning to it makes no own
  property (it replaces the prototype of the object, which the router never reads when
  the key is an own one).\<close>

definition obj_set :: "string \<Rightarrow> 'a \<Rightarrow> (string \<times> 'a) list \<Rightarrow> (string \<times> 'a) list" where
  "obj_set key v obj =
     (if map_of obj key \<noteq> None then AList.update key v obj
      else if key = ''__proto__'' then obj
      else insert_key key v obj)"

section \<open>Instructions\<close>

text \<open>An instruction, with the fields the router reads and writes. The field
  \<^verbatim>\<open>router\<close> is \<^verbatim>\<open>undefined\<close>, a router, or whatever else \<^verbatim>\<open>childRouter\<close> handed
  back.\<close>

datatype instruction = Instruction
  (component: "string option")
  (viewports: "(string \<times> instruction) list")
  (router: "rid property option")
  (canonicalUrl: url)

fun set_router :: "rid property \<Rightarrow> instruction \<Rightarrow> instruction" where
  "set_router r (Instruction c vs _ u) = Instruction c vs (Some r) u"

section \<open>Router objects and the store\<close>

record router =
  name :: string
  parent :: "rid option"
  navigating :: bool
  ports :: "(string \<times> view) list"
  children :: "(string \<times> rid) list"
  registry :: gref
  pipeline :: pref
  lastNavigatedUrl :: url
  previousUrl :: url
  lastNavigationAttempt :: url

text \<open>The calls made to the two collaborators, in order (what a test double counts).\<close>

datatype call = CallRecognize gref url | CallProcess pref instruction

record 'g world =
  routers :: "rid \<Rightarrow> router"
  nxt :: rid
  grammars :: "gref \<Rightarrow> 'g"
  calls :: "call list"

text \<open>The collaborators that are not part of the router: the Grammar
  (\<^verbatim>\<open>./grammar\<close>), the Pipeline (\<^verbatim>\<open>./pipeline\<close>) and the view handles. Their behaviour is a
  parameter. The state of a Grammar object is of a type \<open>'g\<close> that is left open, and so
  is the type \<open>'m\<close> of the objects handed to \<^verbatim>\<open>config\<close> and \<^verbatim>\<open>generate\<close>.
  \<^verbatim>\<open>recognize\<close> reads the Grammar and hands back an instruction or nothing.
  \<open>pipeline_process\<close> gives the settlement of the promise returned by
  \<^verbatim>\<open>process\<close> and the store at that moment. A view hands back a promise, or for
  \<^verbatim>\<open>canDeactivate\<close> possibly a plain value. None of them is taken to throw.\<close>

record ('g, 'm) env =
  grammar_recognize :: "'g \<Rightarrow> url \<Rightarrow> instruction option"
  grammar_config :: "string \<Rightarrow> 'm \<Rightarrow> 'g \<Rightarrow> 'g"
  grammar_generate :: "'g \<Rightarrow> string \<Rightarrow> 'm \<Rightarrow> string option"
  pipeline_process :: "pref \<Rightarrow> instruction \<Rightarrow> 'g world \<Rightarrow> outcome \<times> 'g world"
  view_activate :: "view \<Rightarrow> instruction property option \<Rightarrow> outcome"
  view_canDeactivate :: "view \<Rightarrow> instruction property option \<Rightarrow> reply"

definition update_router :: "rid \<Rightarrow> (router \<Rightarrow> router) \<Rightarrow> 'g world \<Rightarrow> 'g world" where
  "update_router r f w = w\<lparr>routers := (routers w)(r := f (routers w r))\<rparr>"

definition log_call :: "call \<Rightarrow> 'g world \<Rightarrow> 'g world" where
  "log_call c w = w\<lparr>calls := calls w @ [c]\<rparr>"

text \<open>\<^verbatim>\<open>constructor(grammar, pipeline, parent, name)\<close>: the three URL fields are not
  assigned, so they start out \<^verbatim>\<open>undefined\<close>.\<close>

definition Router :: "gref \<Rightarrow> pref \<Rightarrow> rid option \<Rightarrow> string \<Rightarrow> router" where
  "Router grammar pipe parent_arg name_arg =
     \<lparr>name = name_arg, parent = parent_arg, navigating = False, ports = [], children = [],
      registry = grammar, pipeline = pipe,
      lastNavigatedUrl = None, previousUrl = None, lastNavigationAttempt = None\<rparr>"

text \<open>\<^verbatim>\<open>new\<close>: the object gets the next free identity.\<close>

definition new_router :: "router \<Rightarrow> 'g world \<Rightarrow> rid \<times> 'g world" where
  "new_router r w = (nxt w, w\<lparr>routers := (routers w)(nxt w := r), nxt := Suc (nxt w)\<rparr>)"

definition empty_world :: "(gref \<Rightarrow> 'g) \<Rightarrow> 'g world" where
  "empty_world gs = \<lparr>routers = (\<lambda>_. Router 0 0 None []), nxt = 0, grammars = gs, calls = []\<rparr>"

text \<open>\<^verbatim>\<open>class RootRouter\<close>: \<^verbatim>\<open>super(grammar, pipeline, null, '/')\<close>.\<close>

definition RootRouter :: "gref \<Rightarrow> pref \<Rightarrow> 'g world \<Rightarrow> rid \<times> 'g world" where
  "RootRouter grammar pipe w = new_router (Router grammar pipe None ''/'') w"

text \<open>\<^verbatim>\<open>class ChildRouter\<close>: \<^verbatim>\<open>super(parent.registry, parent.pipeline, parent, name)\<close>.\<close>

definition ChildRouter :: "rid \<Rightarrow> string \<Rightarrow> 'g world \<Rightarrow> rid \<times> 'g world" where
  "ChildRouter parent_arg name_arg w =
     new_router (Router (registry (routers w parent_arg)) (pipeline (routers w parent_arg))
                   (Some parent_arg) name_arg) w"

definition default_arg :: "string option \<Rightarrow> string" where
  "default_arg a = (case a of None \<Rightarrow> ''default'' | Some n \<Rightarrow> n)"

text \<open>\<^verbatim>\<open>childRouter(name = 'default')\<close>: when \<^verbatim>\<open>this.children[name]\<close> is truthy, it is
  what the method returns, be it a child router or a member inherited from
  \<^verbatim>\<open>Object.prototype\<close>; when it is \<^verbatim>\<open>undefined\<close>, a \<^verbatim>\<open>ChildRouter\<close> is constructed,
  stored as an own property and returned.\<close>

definition childRouter ::
  "rid \<Rightarrow> string option \<Rightarrow> 'g world \<Rightarrow> rid property \<times> 'g world" where
  "childRouter this name_arg w =
     (let n = default_arg name_arg in
      case obj_get (children (routers w this)) n of
        Some c \<Rightarrow> (c, w)
      | None \<Rightarrow>
          (let (c, w1) = ChildRouter this n w in
           (Own c, update_router this (\<lambda>r. r\<lparr>children := obj_set n c (children r)\<rparr>) w1)))"

section \<open>Navigation\<close>

definition recognize :: "('g, 'm) env \<Rightarrow> rid \<Rightarrow> url \<Rightarrow> 'g world \<Rightarrow> instruction option" where
  "recognize env this u w = grammar_recognize env (grammars w (registry (routers w this))) u"

definition startNavigating :: "rid \<Rightarrow> 'g world \<Rightarrow> 'g world" where
  "startNavigating this w = update_router this (\<lambda>r. r\<lparr>navigating := True\<rparr>) w"

definition finishNavigating :: "rid \<Rightarrow> 'g world \<Rightarrow> 'g world" where
  "finishNavigating this w = update_router this (\<lambda>r. r\<lparr>navigating := False\<rparr>) w"

text \<open>The two \<^verbatim>\<open>.then\<close> callbacks chained on the promise of \<^verbatim>\<open>pipeline.process\<close>. Both
  are fulfilment handlers; there is no rejection handler, so a rejection passes through
  the chain and neither callback runs.\<close>

definition navigate_settle ::
  "rid \<Rightarrow> instruction \<Rightarrow> outcome \<times> 'g world \<Rightarrow> outcome \<times> 'g world" where
  "navigate_settle this instruction pw =
     (case fst pw of
        Rejected reason \<Rightarrow> (Rejected reason, snd pw)
      | Resolved _ \<Rightarrow>
          (let w1 = finishNavigating this (snd pw);
               w2 = update_router this
                      (\<lambda>r. r\<lparr>lastNavigatedUrl := canonicalUrl instruction\<rparr>) w1
           in (Resolved (url_value (canonicalUrl instruction)), w2)))"

text \<open>\<^verbatim>\<open>navigate(url)\<close>, run until the returned promise has settled.\<close>

definition navigate :: "('g, 'm) env \<Rightarrow> rid \<Rightarrow> url \<Rightarrow> 'g world \<Rightarrow> outcome \<times> 'g world" where
  "navigate env this u w =
     (if navigating (routers w this) \<or> lastNavigatedUrl (routers w this) = u
      then (Resolved Undefined, w)
      else
        (let w1 = log_call (CallRecognize (registry (routers w this)) u) w in
         case recognize env this u w of
           None \<Rightarrow> (Rejected Undefined, w1)
         | Some found \<Rightarrow>
             (let w2 = startNavigating this w1;
                  instruction = set_router (Own this) found;
                  w3 = log_call (CallProcess (pipeline (routers w2 this)) instruction) w2
              in navigate_settle this instruction
                   (pipeline_process env (pipeline (routers w2 this)) instruction w3))))"

text \<open>\<^verbatim>\<open>renavigate()\<close>: \<^verbatim>\<open>this.previousUrl || this.lastNavigationAttempt\<close> is the left
  operand when that is truthy, else the right one.\<close>

definition renavigateDestination :: "router \<Rightarrow> url" where
  "renavigateDestination r =
     (if url_truthy (previousUrl r) then previousUrl r else lastNavigationAttempt r)"

definition renavigate :: "('g, 'm) env \<Rightarrow> rid \<Rightarrow> 'g world \<Rightarrow> outcome \<times> 'g world" where
  "renavigate env this w =
     (if \<not> navigating (routers w this) \<and> url_truthy (renavigateDestination (routers w this))
      then navigate env this (renavigateDestination (routers w this)) w
      else (Resolved Undefined, w))"

text \<open>\<^verbatim>\<open>registerViewport(view, name = 'default')\<close>\<close>

definition registerViewport ::
  "('g, 'm) env \<Rightarrow> rid \<Rightarrow> view \<Rightarrow> string option \<Rightarrow> 'g world \<Rightarrow> outcome \<times> 'g world" where
  "registerViewport env this v name_arg w =
     renavigate env this
       (update_router this (\<lambda>r. r\<lparr>ports := obj_set (default_arg name_arg) v (ports r)\<rparr>) w)"

text \<open>\<^verbatim>\<open>config(mapping)\<close>\<close>

definition config :: "('g, 'm) env \<Rightarrow> rid \<Rightarrow> 'm \<Rightarrow> 'g world \<Rightarrow> outcome \<times> 'g world" where
  "config env this mapping w =
     (let g = registry (routers w this) in
      renavigate env this
        (w\<lparr>grammars := (grammars w)
              (g := grammar_config env (name (routers w this)) mapping (grammars w g))\<rparr>))"

text \<open>\<^verbatim>\<open>generate(name, params)\<close>\<close>

definition generate :: "('g, 'm) env \<Rightarrow> rid \<Rightarrow> string \<Rightarrow> 'm \<Rightarrow> 'g world \<Rightarrow> string option" where
  "generate env this n params w =
     grammar_generate env (grammars w (registry (routers w this))) n params"

section \<open>Building the router tree\<close>

datatype error = TypeError

text \<open>\<^verbatim>\<open>makeDescendantRouters\<close> hands \<^verbatim>\<open>traverseInstructionSync\<close> the callback
  \<^verbatim>\<open>(instruction, childInstruction) => { childInstruction.router =
  instruction.router.childRouter(childInstruction.component); }\<close>.
  The first \<^verbatim>\<open>forEach\<close> of \<^verbatim>\<open>traverseInstructionSync\<close> applies it to every entry of
  \<^verbatim>\<open>instruction.viewports\<close>. The call of \<^verbatim>\<open>childRouter\<close> throws when
  \<^verbatim>\<open>instruction.router\<close> is no router: \<^verbatim>\<open>undefined\<close>, or an inherited member that
  an earlier \<^verbatim>\<open>childRouter\<close> handed back. What was assigned and constructed before a
  throw stays as it is, so the result is the error, if there is one, together with the
  entries and the store at that moment.\<close>

fun forEach_fn :: "instruction \<Rightarrow> (string \<times> instruction) list \<Rightarrow> 'g world \<Rightarrow>
    error option \<times> (string \<times> instruction) list \<times> 'g world" where
  "forEach_fn instruction [] w = (None, [], w)"
| "forEach_fn instruction ((viewportName, childInstruction) # rest) w =
     (case router instruction of
        Some (Own p) \<Rightarrow>
          (let (r, w1) = childRouter p (component childInstruction) w;
               (e, rest', w2) = forEach_fn instruction rest w1
           in (e, (viewportName, set_router r childInstruction) # rest', w2))
      | _ \<Rightarrow> (Some TypeError, (viewportName, childInstruction) # rest, w))"

text \<open>\<^verbatim>\<open>traverseInstructionSync(instruction, fn)\<close> with that callback: the first
  \<^verbatim>\<open>forEach\<close>, then the second one, which walks each child in turn and stops at the
  first throw. The instruction objects are updated in place in the source; here the
  updated tree is returned.\<close>

function traverseInstructionSync ::
    "instruction \<Rightarrow> 'g world \<Rightarrow> error option \<times> instruction \<times> 'g world"
  and forEach_traverse :: "(string \<times> instruction) list \<Rightarrow> 'g world \<Rightarrow>
    error option \<times> (string \<times> instruction) list \<times> 'g world" where
  "traverseInstructionSync instruction w =
     (case forEach_fn instruction (viewports instruction) w of
        (Some e, vs1, w1) \<Rightarrow>
          (Some e, Instruction (component instruction) vs1 (router instruction)
                     (canonicalUrl instruction), w1)
      | (None, vs1, w1) \<Rightarrow>
          (case forEach_traverse vs1 w1 of
             (e, vs2, w2) \<Rightarrow>
               (e, Instruction (component instruction) vs2 (router instruction)
                     (canonicalUrl instruction), w2)))"
| "forEach_traverse [] w = (None, [], w)"
| "forEach_traverse ((viewportName, childInstruction) # rest) w =
     (case traverseInstructionSync childInstruction w of
        (Some e, c', w1) \<Rightarrow> (Some e, (viewportName, c') # rest, w1)
      | (None, c', w1) \<Rightarrow>
          (case forEach_traverse rest w1 of
             (e, rest', w2) \<Rightarrow> (e, (viewportName, c') # rest', w2)))"
  by pat_completeness auto
termination
proof (relation "measure (\<lambda>x. case x of
          Inl (i, w) \<Rightarrow> 2 * size i
        | Inr (vs, w) \<Rightarrow> 2 * size_list (size_prod (\<lambda>x. 0) size) vs + 1)")
  fix instruction :: instruction and w :: "'g world" and x :: "error option" and y vs1 w1
  assume a: "(x, y) = forEach_fn instruction (viewports instruction) w" "x = None" "(vs1, w1) = y"
  have sz: "\<And>r c. size (set_router r c) = size c"
    by (case_tac c) simp
  have "size_list (size_prod (\<lambda>x. 0) size) (fst (snd (forEach_fn instruction vs w))) =
        size_list (size_prod (\<lambda>x. 0) size) vs" for vs
  proof (induction vs arbitrary: w)
    case Nil
    then show ?case by simp
  next
    case (Cons a vs)
    then show ?case
      by (cases a) (simp add: sz split_beta split: option.splits property.splits)
  qed
  from this [of "viewports instruction"]
  have "size_list (size_prod (\<lambda>x. 0) size) vs1 =
      size_list (size_prod (\<lambda>x. 0) size) (viewports instruction)"
    using a(1) [symmetric] a(3) [symmetric] by simp
  moreover have "size_list (size_prod (\<lambda>x. 0) size) (viewports instruction) < size instruction"
    by (cases instruction) simp
  ultimately show "(Inr (vs1, w1), Inl (instruction, w)) \<in> measure (\<lambda>x. case x of
          Inl (i, w) \<Rightarrow> 2 * size i
        | Inr (vs, w::'g world) \<Rightarrow> 2 * size_list (size_prod (\<lambda>x. 0) size) vs + 1)"
    by simp
qed simp_all

declare traverseInstructionSync.simps [simp del]

text \<open>\<^verbatim>\<open>makeDescendantRouters(instruction)\<close>\<close>

definition makeDescendantRouters ::
  "rid \<Rightarrow> instruction \<Rightarrow> 'g world \<Rightarrow> error option \<times> instruction \<times> 'g world" where
  "makeDescendantRouters this instruction w = traverseInstructionSync instruction w"

section \<open>The asynchronous walks\<close>

text \<open>
  \<^verbatim>\<open>queryViewports\<close>, \<^verbatim>\<open>traversePorts\<close> and \<^verbatim>\<open>activatePorts\<close> are built from
  \<^verbatim>\<open>mapObjAsync(obj, fn)\<close>, that is \<^verbatim>\<open>Promise.all(mapObj(obj, fn))\<close>, followed by
  \<^verbatim>\<open>.then(callback)\<close>. \<^verbatim>\<open>mapObj\<close> calls \<^verbatim>\<open>fn\<close> on every entry at once, in the order of
  \<^verbatim>\<open>Object.keys\<close>; the callback runs at some later moment, once every promise of the batch
  is fulfilled, and never if one of them rejects. Callbacks of different batches run in an
  order that depends on when the views settle their promises.

  A walk is therefore modelled as a state: the calls made on views so far (\<open>trace\<close>), the
  callbacks that are waiting for their batch (\<open>pending\<close>), and whether some promise of the
  walk rejects, which rejects the promise the walk returned (\<open>failed\<close>). A schedule, a list
  of indices into \<open>pending\<close>, says which waiting callback runs next; every order in which
  the batches can settle is some schedule. A call is recorded with the position of the walk
  that made it: the path of entry indices from the root of the walk. The store is not
  changed by a walk (none of these functions assigns a field), and the views are taken
  not to call back into the router while a walk runs.
\<close>

type_synonym path = "nat list"

datatype vcall =
    Activate view "instruction property option"
  | CanDeactivate view "instruction property option"

record visit =
  place :: path
  owner :: rid
  slot :: string
  did :: vcall
  settled :: outcome

record 'n walk =
  trace :: "visit list"
  pending :: "(path \<times> 'n) list"
  failed :: bool

definition empty_walk :: "'n walk" where
  "empty_walk = \<lparr>trace = [], pending = [], failed = False\<rparr>"

text \<open>\<^verbatim>\<open>function mapObj(obj, fn)\<close>\<close>

definition mapObj :: "(string \<times> 'a) list \<Rightarrow> ('a \<Rightarrow> string \<Rightarrow> 'b) \<Rightarrow> 'b list" where
  "mapObj obj fn = map (\<lambda>(key, x). fn x key) obj"



text \<open>\<^verbatim>\<open>Promise.all(batch).then(callback)\<close>: the calls of the batch are made now; the callback
  waits if all of them are fulfilled, and the walk fails otherwise.\<close>

definition then_continue :: "visit list \<Rightarrow> path \<times> 'n \<Rightarrow> 'n walk \<Rightarrow> 'n walk" where
  "then_continue batch callback s =
     (if list_all (\<lambda>v. is_resolved (settled v)) batch
      then s\<lparr>trace := trace s @ batch, pending := pending s @ [callback]\<rparr>
      else s\<lparr>trace := trace s @ batch, failed := True\<rparr>)"

text \<open>\<^verbatim>\<open>mapObjAsync(obj, fn)\<close> inside a callback, where \<^verbatim>\<open>fn\<close> starts the walk of one
  entry: entry number \<open>k\<close> makes its batch of calls and leaves its own callback. An entry
  on which \<^verbatim>\<open>fn\<close> throws (\<open>None\<close>) ends the loop of \<^verbatim>\<open>mapObj\<close> and rejects the promise of
  the callback; the entries before it have been started and go on.\<close>

fun mapObjAsync ::
  "path \<Rightarrow> nat \<Rightarrow> ((path \<Rightarrow> visit list) \<times> 'n) option list \<Rightarrow> 'n walk \<Rightarrow> 'n walk" where
  "mapObjAsync p k [] s = s"
| "mapObjAsync p k (None # rest) s = s\<lparr>failed := True\<rparr>"
| "mapObjAsync p k (Some (batch, n) # rest) s =
     mapObjAsync p (Suc k) rest (then_continue (batch (p @ [k])) (p @ [k], n) s)"

text \<open>One step of a walk: the waiting callback number \<open>i\<close> runs (nothing happens if
  there is none); \<open>callback n\<close> lists what the callback of node \<open>n\<close> starts.\<close>

definition walk_step ::
  "('n \<Rightarrow> ((path \<Rightarrow> visit list) \<times> 'n) option list) \<Rightarrow> nat \<Rightarrow> 'n walk \<Rightarrow> 'n walk" where
  "walk_step callback i s =
     (if i < length (pending s)
      then (case pending s ! i of
              (p, n) \<Rightarrow>
                mapObjAsync p 0 (callback n)
                  (s\<lparr>pending := take i (pending s) @ drop (Suc i) (pending s)\<rparr>))
      else s)"

definition walk_run ::
  "('n \<Rightarrow> ((path \<Rightarrow> visit list) \<times> 'n) option list) \<Rightarrow> nat list \<Rightarrow> 'n walk \<Rightarrow> 'n walk" where
  "walk_run callback schedule s = foldl (\<lambda>s i. walk_step callback i s) s schedule"








text \<open>\<^verbatim>\<open>traverseInstruction(instruction, fn)\<close>: nothing to do for a missing instruction;
  otherwise \<^verbatim>\<open>boolToPromise(fn(childInstruction, viewportName))\<close> for every entry of
  \<^verbatim>\<open>instruction.viewports\<close>, then \<^verbatim>\<open>childInstruction.router.traverseInstruction\<close> for
  every entry. The callback is the caller's; it makes one call and hands back the
  result.\<close>

type_synonym instruction_fn = "instruction \<Rightarrow> string \<Rightarrow> vcall \<times> reply"

definition traverseInstruction_batch ::
  "instruction_fn \<Rightarrow> rid \<Rightarrow> instruction \<Rightarrow> path \<Rightarrow> visit list" where
  "traverseInstruction_batch fn this instruction p =
     mapObj (viewports instruction)
       (\<lambda>childInstruction viewportName.
          \<lparr>place = p, owner = this, slot = viewportName,
           did = fst (fn childInstruction viewportName),
           settled = boolToPromise (snd (fn childInstruction viewportName))\<rparr>)"

definition traverseInstruction_then ::
  "instruction_fn \<Rightarrow> rid \<times> instruction \<Rightarrow>
   ((path \<Rightarrow> visit list) \<times> rid \<times> instruction) option list" where
  "traverseInstruction_then fn n =
     mapObj (viewports (snd n))
       (\<lambda>childInstruction viewportName.
          case router childInstruction of
            Some (Own r) \<Rightarrow>
              Some (traverseInstruction_batch fn r childInstruction, (r, childInstruction))
          | _ \<Rightarrow> None)"

definition traverseInstruction ::
  "rid \<Rightarrow> instruction option \<Rightarrow> instruction_fn \<Rightarrow> nat list \<Rightarrow> (rid \<times> instruction) walk" where
  "traverseInstruction this instruction fn schedule =
     (case instruction of
        None \<Rightarrow> empty_walk
      | Some i \<Rightarrow>
          walk_run (traverseInstruction_then fn) schedule
            (then_continue (traverseInstruction_batch fn this i []) ([], (this, i)) empty_walk))"

section \<open>Properties of stores, instruction trees and traces\<close>

text \<open>A store is well formed when every entry of a \<^verbatim>\<open>children\<close> dictionary is a router
  that exists and was constructed by \<^verbatim>\<open>new ChildRouter(this, name)\<close>.\<close>

definition wf_world :: "'g world \<Rightarrow> bool" where
  "wf_world w \<longleftrightarrow>
     (\<forall>r < nxt w. \<forall>(n, c) \<in> set (children (routers w r)).
        c < nxt w \<and> parent (routers w c) = Some r \<and>
        registry (routers w c) = registry (routers w r) \<and>
        pipeline (routers w c) = pipeline (routers w r))"

text \<open>The store \<open>w'\<close> has every router of \<open>w\<close>, and whatever \<^verbatim>\<open>children[name]\<close> reads on
  one of them in \<open>w\<close>, but for \<^verbatim>\<open>undefined\<close>, it reads in \<open>w'\<close>.\<close>

definition children_kept :: "'g world \<Rightarrow> 'g world \<Rightarrow> bool" where
  "children_kept w w' \<longleftrightarrow>
     nxt w \<le> nxt w' \<and>
     (\<forall>r < nxt w. \<forall>n c. obj_get (children (routers w r)) n = Some c \<longrightarrow>
        obj_get (children (routers w' r)) n = Some c)"

text \<open>A child instruction carries what its parent's router, an existing router, holds
  under the child's component name: what \<^verbatim>\<open>parent.router.childRouter(child.component)\<close>
  returns.\<close>

definition linked :: "'g world \<Rightarrow> rid property option \<Rightarrow> instruction \<Rightarrow> bool" where
  "linked w r child =
     (case r of
        Some (Own p) \<Rightarrow>
          p < nxt w \<and> router child \<noteq> None \<and>
          router child = obj_get (children (routers w p)) (default_arg (component child)) \<and>
          (\<forall>rc. router child = Some (Own rc) \<longrightarrow> rc < nxt w)
      | _ \<Rightarrow> False)"


text \<open>Every child instruction of the tree is linked to its parent in that way.\<close>

fun routed :: "'g world \<Rightarrow> instruction \<Rightarrow> bool"
  and routed_children ::
    "'g world \<Rightarrow> rid property option \<Rightarrow> (string \<times> instruction) list \<Rightarrow> bool" where
  "routed w (Instruction c vs r u) = routed_children w r vs"
| "routed_children w r [] = True"
| "routed_children w r ((viewportName, child) # rest) =
     (linked w r child \<and> routed w child \<and> routed_children w r rest)"

text \<open>No child instruction that has viewports of its own is named like a member
  inherited from \<^verbatim>\<open>Object.prototype\<close>.\<close>

fun plain :: "instruction \<Rightarrow> bool"
  and plain_children :: "(string \<times> instruction) list \<Rightarrow> bool" where
  "plain (Instruction c vs r u) = plain_children vs"
| "plain_children [] = True"
| "plain_children ((viewportName, child) # rest) =
     ((viewports child = [] \<or> default_arg (component child) \<notin> set prototype_members) \<and>
      plain child \<and> plain_children rest)"

text \<open>Such a tree, whose root has viewports only if it has an existing router.\<close>

definition ready :: "'g world \<Rightarrow> instruction \<Rightarrow> bool" where
  "ready w i \<longleftrightarrow>
     (viewports i = [] \<or> (case router i of Some (Own p) \<Rightarrow> p < nxt w | _ \<Rightarrow> False)) \<and> plain i"

text \<open>The instruction tree without its router fields.\<close>

fun forget_routers :: "instruction \<Rightarrow> instruction" where
  "forget_routers (Instruction c vs r u) =
     Instruction c (map (\<lambda>(key, i). (key, forget_routers i)) vs) None u"

text \<open>A call made deeper in the walk never comes before a call made at a position above
  it on the same branch.\<close>

fun nested_order :: "visit list \<Rightarrow> bool" where
  "nested_order [] = True"
| "nested_order (v # vs) =
     ((\<forall>v' \<in> set vs. \<not> strict_prefix (place v') (place v)) \<and> nested_order vs)"

text \<open>Nothing is called below a position where a call was rejected.\<close>

definition barrier :: "visit list \<Rightarrow> bool" where
  "barrier t \<longleftrightarrow>
     (\<forall>v \<in> set t. \<not> is_resolved (settled v) \<longrightarrow>
        (\<forall>v' \<in> set t. \<not> strict_prefix (place v) (place v')))"






text \<open>The calls of a batch are recorded at the position the batch is made at.\<close>

definition positioned :: "('n \<Rightarrow> ((path \<Rightarrow> visit list) \<times> 'n) option list) \<Rightarrow> bool" where
  "positioned callback \<longleftrightarrow>
     (\<forall>n b m q. Some (b, m) \<in> set (callback n) \<longrightarrow> (\<forall>v \<in> set (b q). place v = q))"

text \<open>What holds of a walk at every moment: the two orders on the trace; nothing has
  been called below a waiting callback; no callback waits at or below a rejected call;
  the waiting callbacks are at positions none of which is above another; and a rejected
  call has failed the walk.\<close>

definition walk_inv :: "'n walk \<Rightarrow> bool" where
  "walk_inv s \<longleftrightarrow>
     nested_order (trace s) \<and> barrier (trace s) \<and>
     (\<forall>v \<in> set (trace s). \<forall>q \<in> fst ` set (pending s). \<not> strict_prefix q (place v)) \<and>
     (\<forall>v \<in> set (trace s). \<not> is_resolved (settled v) \<longrightarrow>
        (\<forall>q \<in> fst ` set (pending s). \<not> prefix (place v) q)) \<and>
     distinct (map fst (pending s)) \<and>
     (\<forall>q \<in> fst ` set (pending s). \<forall>q' \<in> fst ` set (pending s). prefix q q' \<longrightarrow> q = q') \<and>
     ((\<exists>v \<in> set (trace s). \<not> is_resolved (settled v)) \<longrightarrow> failed s)"

text \<open>The same while the callback at position \<open>p\<close> is running and has started its
  entries below number \<open>k\<close>.\<close>

definition spawn_inv :: "path \<Rightarrow> nat \<Rightarrow> 'n walk \<Rightarrow> bool" where
  "spawn_inv p k s \<longleftrightarrow>
     nested_order (trace s) \<and> barrier (trace s) \<and>
     (\<forall>v \<in> set (trace s). \<forall>q \<in> fst ` set (pending s). \<not> strict_prefix q (place v)) \<and>
     (\<forall>v \<in> set (trace s). strict_prefix p (place v) \<longrightarrow> (\<exists>j<k. place v = p @ [j])) \<and>
     (\<forall>v \<in> set (trace s). \<not> is_resolved (settled v) \<longrightarrow>
        \<not> prefix (place v) p \<and> (\<forall>q \<in> fst ` set (pending s). \<not> prefix (place v) q)) \<and>
     distinct (map fst (pending s)) \<and>
     (\<forall>q \<in> fst ` set (pending s). \<forall>q' \<in> fst ` set (pending s). prefix q q' \<longrightarrow> q = q') \<and>
     (\<forall>q \<in> fst ` set (pending s). \<not> prefix q p \<and> (prefix p q \<longrightarrow> (\<exists>j<k. q = p @ [j]))) \<and>
     ((\<exists>v \<in> set (trace s). \<not> is_resolved (settled v)) \<longrightarrow> failed s)"


section \<open>Sequences of operations\<close>

datatype 'm op =
    Construct gref pref
  | Navigate url
  | Config 'm
  | RegisterViewport view "string option"
  | ChildRouterOp "string option"
  | Renavigate
  | Generate string 'm
  | MakeDescendantRouters instruction
  | ActivatePorts instruction "nat list"
  | CanDeactivatePorts instruction "nat list"
  | TraverseInstruction "instruction option" instruction_fn "nat list"

text \<open>The store after one method call on router \<open>this\<close>, be it that the call throws.
  \<^verbatim>\<open>generate\<close> and the asynchronous walks only read the store.\<close>

fun apply_op :: "('g, 'm) env \<Rightarrow> rid \<Rightarrow> 'm op \<Rightarrow> 'g world \<Rightarrow> 'g world" where
  "apply_op env this (Construct g p) w = snd (RootRouter g p w)"
| "apply_op env this (Navigate u) w = snd (navigate env this u w)"
| "apply_op env this (Config m) w = snd (config env this m w)"
| "apply_op env this (RegisterViewport v n) w = snd (registerViewport env this v n w)"
| "apply_op env this (ChildRouterOp n) w = snd (childRouter this n w)"
| "apply_op env this Renavigate w = snd (renavigate env this w)"
| "apply_op env this (Generate n params) w = w"
| "apply_op env this (MakeDescendantRouters i) w = snd (snd (makeDescendantRouters this i w))"
| "apply_op env this (ActivatePorts i schedule) w = w"
| "apply_op env this (CanDeactivatePorts i schedule) w = w"
| "apply_op env this (TraverseInstruction i fn schedule) w = w"

fun run_ops :: "('g, 'm) env \<Rightarrow> (rid \<times> 'm op) list \<Rightarrow> 'g world \<Rightarrow> 'g world" where
  "run_ops env [] w = w"
| "run_ops env ((this, x) # rest) w = run_ops env rest (apply_op env this x w)"

text \<open>Between two stores, \<^verbatim>\<open>previousUrl\<close> and \<^verbatim>\<open>lastNavigationAttempt\<close> of every
  existing router are what they were, and every router constructed in between has both
  \<^verbatim>\<open>undefined\<close>.\<close>

definition urls_kept :: "'g world \<Rightarrow> 'g world \<Rightarrow> bool" where
  "urls_kept w w' \<longleftrightarrow>
     nxt w \<le> nxt w' \<and>
     (\<forall>r < nxt w.
        previousUrl (routers w' r) = previousUrl (routers w r) \<and>
        lastNavigationAttempt (routers w' r) = lastNavigationAttempt (routers w r)) \<and>
     (\<forall>r < nxt w'. nxt w \<le> r \<longrightarrow>
        previousUrl (routers w' r) = None \<and> lastNavigationAttempt (routers w' r) = None)"

text \<open>The Pipeline works on routers through their methods only.\<close>

definition pipeline_keeps_urls :: "('g, 'm) env \<Rightarrow> bool" where
  "pipeline_keeps_urls env \<longleftrightarrow> (\<forall>p i w. urls_kept w (snd (pipeline_process env p i w)))"

text \<open>The Pipeline removes no router and no entry of a \<^verbatim>\<open>children\<close> dictionary, and adds
  none under the name of an inherited member.\<close>

definition pipeline_keeps_children :: "('g, 'm) env \<Rightarrow> bool" where
  "pipeline_keeps_children env \<longleftrightarrow>
     (\<forall>p i w. children_kept w (snd (pipeline_process env p i w)))"

section \<open>Example applications\<close>

text \<open>A Grammar that is a table from URLs to instructions, replaced as a whole by
  \<^verbatim>\<open>config\<close>, and views that accept everything.\<close>

type_synonym routes = "(string \<times> instruction) list"

definition table_env ::
  "(pref \<Rightarrow> instruction \<Rightarrow> routes world \<Rightarrow> outcome \<times> routes world) \<Rightarrow> (routes, routes) env" where
  "table_env proc =
     \<lparr>grammar_recognize = (\<lambda>g u. case u of None \<Rightarrow> None | Some s \<Rightarrow> map_of g s),
      grammar_config = (\<lambda>n m g. m),
      grammar_generate = (\<lambda>g n params. None),
      pipeline_process = proc,
      view_activate = (\<lambda>v i. Resolved Undefined),
      view_canDeactivate = (\<lambda>v i. Value (Bool True))\<rparr>"

text \<open>Two Pipelines: one whose promise is fulfilled, one whose promise is rejected.\<close>

definition fulfilling :: "pref \<Rightarrow> instruction \<Rightarrow> routes world \<Rightarrow> outcome \<times> routes world" where
  "fulfilling p i w = (Resolved Undefined, w)"

definition rejecting :: "pref \<Rightarrow> instruction \<Rightarrow> routes world \<Rightarrow> outcome \<times> routes world" where
  "rejecting p i w = (Rejected (Str ''boom''), w)"

text \<open>A Pipeline whose only step is \<^verbatim>\<open>instruction.router.makeDescendantRouters(instruction)\<close>;
  its promise is rejected when the step throws.\<close>

definition building :: "pref \<Rightarrow> instruction \<Rightarrow> routes world \<Rightarrow> outcome \<times> routes world" where
  "building p i w =
     (case router i of
        Some (Own r) \<Rightarrow>
          (case makeDescendantRouters r i w of
             (None, i', w') \<Rightarrow> (Resolved Undefined, w')
           | (Some e, i', w') \<Rightarrow> (Rejected Undefined, w'))
      | _ \<Rightarrow> (Rejected Undefined, w))"

text \<open>The routes of \<^verbatim>\<open>examples/angular-1/hello/app.js\<close>: \<^verbatim>\<open>/\<close> redirects to
  \<^verbatim>\<open>/welcome\<close>.\<close>

definition welcome_instruction :: instruction where
  "welcome_instruction =
     Instruction None [(''default'', Instruction (Some ''welcome'') [] None None)] None
       (Some ''/welcome'')"

definition goodbye_instruction :: instruction where
  "goodbye_instruction =
     Instruction None [(''default'', Instruction (Some ''goodbye'') [] None None)] None
       (Some ''/goodbye'')"

definition hello_routes :: routes where
  "hello_routes =
     [(''/'', welcome_instruction), (''/welcome'', welcome_instruction),
      (''/goodbye'', goodbye_instruction)]"

definition hello_world :: "routes world" where
  "hello_world = snd (RootRouter 0 0 (empty_world (\<lambda>_. hello_routes)))"

text \<open>A route with two sibling viewports, as in
  \<^verbatim>\<open>examples/angular-1/sibbling-routes/app.js\<close>, whose left component nests three further
  levels and whose right component nests two: the instructions for \<^verbatim>\<open>users\<close>,
  \<^verbatim>\<open>user\<close>, \<^verbatim>\<open>profile\<close> and \<^verbatim>\<open>avatar\<close> are at depths 1 to 4, those for
  \<^verbatim>\<open>posts\<close>, \<^verbatim>\<open>post\<close> and \<^verbatim>\<open>comments\<close> at depths 1 to 3.\<close>

definition nested_instruction :: instruction where
  "nested_instruction =
     Instruction None
       [(''left'',
           Instruction (Some ''users'')
             [(''default'',
                 Instruction (Some ''user'')
                   [(''default'',
                       Instruction (Some ''profile'')
                         [(''default'', Instruction (Some ''avatar'') [] None None)]
                         None None)]
                   None None)]
             None None),
        (''right'',
           Instruction (Some ''posts'')
             [(''default'',
                 Instruction (Some ''post'')
                   [(''default'', Instruction (Some ''comments'') [] None None)] None None)]
             None None)]
       (Some (Own 0)) (Some ''/users/posts'')"

text \<open>A route with two sibling viewports whose right component is named
  \<^verbatim>\<open>constructor\<close>; both components have a viewport of their own.\<close>

definition constructor_instruction :: instruction where
  "constructor_instruction =
     Instruction None
       [(''left'',
           Instruction (Some ''users'')
             [(''default'', Instruction (Some ''user'') [] None None)] None None),
        (''right'',
           Instruction (Some ''constructor'')
             [(''default'', Instruction (Some ''detail'') [] None None)] None None)]
       (Some (Own 0)) (Some ''/users/constructor'')"

text \<open>The router tree for that route, built by \<^verbatim>\<open>makeDescendantRouters\<close> (routers 1, 3,
  4 and 5 for the left branch, 2, 6 and 7 for the right one), with one view registered
  for every viewport that has an instruction.\<close>

definition nested_ops :: "(rid \<times> routes op) list" where
  "nested_ops =
     [(0, MakeDescendantRouters nested_instruction),
      (0, RegisterViewport 10 (Some ''left'')), (0, RegisterViewport 11 (Some ''right'')),
      (1, RegisterViewport 12 None), (2, RegisterViewport 13 None),
      (3, RegisterViewport 14 None), (4, RegisterViewport 15 None),
      (6, RegisterViewport 16 None)]"

definition nested_world :: "routes world" where
  "nested_world = run_ops (table_env fulfilling) nested_ops hello_world"

definition nested_routed :: instruction where
  "nested_routed = fst (snd (makeDescendantRouters 0 nested_instruction hello_world))"


text \<open>The hello application after a navigation to \<^verbatim>\<open>/welcome\<close> and a later \<^verbatim>\<open>config\<close>
  whose table no longer has that route.\<close>

definition reconfigured_world :: "routes world" where
  "reconfigured_world =
     snd (config (table_env fulfilling) 0 [(''/goodbye'', goodbye_instruction)]
            (snd (navigate (table_env fulfilling) 0 (Some ''/welcome'') hello_world)))"

text \<open>The hello application after a navigation to \<^verbatim>\<open>/welcome\<close> that the Pipeline
  rejected.\<close>

definition rejected_world :: "routes world" where
  "rejected_world = snd (navigate (table_env rejecting) 0 (Some ''/welcome'') hello_world)"

text \<open>The hello application after a navigation to \<^verbatim>\<open>/\<close> that succeeded.\<close>

definition navigated_world :: "routes world" where
  "navigated_world = snd (navigate (table_env fulfilling) 0 (Some ''/'') hello_world)"

text \<open>The hello application with one more route, whose instruction carries no
  \<^verbatim>\<open>canonicalUrl\<close>, after a navigation to \<^verbatim>\<open>/welcome\<close> that succeeded.\<close>

definition bare_instruction :: instruction where
  "bare_instruction =
     Instruction None [(''default'', Instruction (Some ''bare'') [] None None)] None None"

definition bare_world :: "routes world" where
  "bare_world =
     snd (navigate (table_env fulfilling) 0 (Some ''/welcome'')
            (snd (RootRouter 0 0 (empty_world (\<lambda>_. (''/bare'', bare_instruction) # hello_routes)))))"

text \<open>The same with the Pipeline that builds the router tree, followed by the registration
  of a view.\<close>

definition built_world :: "routes world" where
  "built_world =
     run_ops (table_env building) [(0, Navigate (Some ''/'')), (0, RegisterViewport 7 None)]
       (snd (RootRouter 0 0 (empty_world (\<lambda>_. hello_routes))))"

section \<open>Evaluation rules\<close>

lemmas example_defs =
  table_env_def fulfilling_def rejecting_def welcome_instruction_def goodbye_instruction_def
  hello_routes_def hello_world_def reconfigured_world_def rejected_world_def
  navigated_world_def building_def built_world_def bare_instruction_def bare_world_def

lemmas router_defs =
  RootRouter_def ChildRouter_def Router_def new_router_def empty_world_def update_router_def
  log_call_def default_arg_def childRouter_def obj_get_def obj_set_def prototype_members_def
  array_index_def precedes_def digit_def decimal_def recognize_def startNavigating_def
  finishNavigating_def navigate_settle_def navigate_def renavigateDestination_def
  renavigate_def url_truthy_def registerViewport_def config_def generate_def


lemmas nested_defs =
  nested_instruction_def nested_ops_def nested_world_def nested_routed_def
  makeDescendantRouters_def traverseInstructionSync.simps

section \<open>Dictionaries: auxiliary facts\<close>

lemma obj_get_Own_iff: "obj_get obj key = Some (Own x) \<longleftrightarrow> map_of obj key = Some x"
  by (simp add: obj_get_def split: option.splits)

lemma obj_get_None_iff:
  "obj_get obj key = None \<longleftrightarrow> map_of obj key = None \<and> key \<notin> set prototype_members"
  by (simp add: obj_get_def split: option.splits)

lemma obj_get_Inherited_iff:
  "obj_get obj key = Some (Inherited m) \<longleftrightarrow>
     map_of obj key = None \<and> key \<in> set prototype_members \<and> m = key"
  by (auto simp: obj_get_def split: option.splits)

lemma obj_get_cong: "map_of a key = map_of b key \<Longrightarrow> obj_get a key = obj_get b key"
  by (simp add: obj_get_def)

lemma proto_is_member: "''__proto__'' \<in> set prototype_members"
  by (simp add: prototype_members_def)

lemma insert_key_set: "set (insert_key k v al) = insert (k, v) (set al)"
proof (induction al)
  case Nil
  show ?case by simp
next
  case (Cons a al)
  obtain k' v' where a: "a = (k', v')" by (cases a)
  show ?case using Cons.IH by (simp add: a insert_commute)
qed

lemma map_of_insert_key:
  "map_of al k = None \<Longrightarrow> map_of (insert_key k v al) = (map_of al)(k \<mapsto> v)"
proof (induction al)
  case Nil
  then show ?case by simp
next
  case (Cons a al)
  obtain k' v' where a: "a = (k', v')" by (cases a)
  from Cons.prems have ne: "k' \<noteq> k" and n: "map_of al k = None"
    by (auto simp: a split: if_splits)
  from Cons.IH [OF n] ne show ?case
    by (auto simp: a fun_upd_twist)
qed

lemma map_of_obj_set:
  assumes "key \<notin> set prototype_members \<or> map_of obj key \<noteq> None"
  shows "map_of (obj_set key v obj) = (map_of obj)(key \<mapsto> v)"
proof (cases "map_of obj key")
  case (Some x)
  then show ?thesis by (simp add: obj_set_def update_conv')
next
  case None
  with assms have "key \<noteq> ''__proto__''" using proto_is_member by auto
  with None show ?thesis by (simp add: obj_set_def map_of_insert_key)
qed

lemma set_obj_set: "set (obj_set k v al) \<subseteq> insert (k, v) (set al)"
proof -
  have "set (AList.update k v al) \<subseteq> insert (k, v) (set al)"
    by (induction al) auto
  then show ?thesis by (auto simp: obj_set_def insert_key_set)
qed

section \<open>Stores, child routers and the URL fields: auxiliary facts\<close>

lemma childRouter_hit:
  "obj_get (children (routers w this)) (default_arg n) = Some c \<Longrightarrow> childRouter this n w = (c, w)"
  by (simp add: childRouter_def)

lemma childRouter_miss:
  assumes "obj_get (children (routers w this)) (default_arg n) = None"
  shows "childRouter this n w =
    (Own (nxt w),
     update_router this (\<lambda>r. r\<lparr>children := obj_set (default_arg n) (nxt w) (children r)\<rparr>)
       (w\<lparr>routers := (routers w)(nxt w :=
             Router (registry (routers w this)) (pipeline (routers w this)) (Some this) (default_arg n)),
          nxt := Suc (nxt w)\<rparr>))"
  using assms by (simp add: childRouter_def ChildRouter_def new_router_def Let_def)

text \<open>After a miss, the dictionary of \<open>this\<close> has the new entry and reads as before at
  every other name.\<close>

lemma childRouter_miss_children:
  assumes "obj_get (children (routers w this)) (default_arg n) = None" and "this < nxt w"
  shows "map_of (children (routers (snd (childRouter this n w)) this)) =
           (map_of (children (routers w this)))(default_arg n \<mapsto> nxt w)"
    and "r \<noteq> this \<Longrightarrow> r < nxt w \<Longrightarrow>
           children (routers (snd (childRouter this n w)) r) = children (routers w r)"
    and "nxt (snd (childRouter this n w)) = Suc (nxt w)"
proof -
  from assms(1) have np: "default_arg n \<notin> set prototype_members"
    by (simp add: obj_get_None_iff)
  have ne: "this \<noteq> nxt w" using assms(2) by simp
  show "map_of (children (routers (snd (childRouter this n w)) this)) =
           (map_of (children (routers w this)))(default_arg n \<mapsto> nxt w)"
    unfolding childRouter_miss [OF assms(1)]
    using ne np by (simp add: update_router_def map_of_obj_set)
  show "r \<noteq> this \<Longrightarrow> r < nxt w \<Longrightarrow>
           children (routers (snd (childRouter this n w)) r) = children (routers w r)"
    unfolding childRouter_miss [OF assms(1)] by (simp add: update_router_def)
  show "nxt (snd (childRouter this n w)) = Suc (nxt w)"
    unfolding childRouter_miss [OF assms(1)] by (simp add: update_router_def)
qed

lemma wf_world_childRouter:
  assumes "wf_world w" "this < nxt w"
  shows "wf_world (snd (childRouter this n w))"
proof (cases "obj_get (children (routers w this)) (default_arg n)")
  case (Some c)
  then show ?thesis using assms by (simp add: childRouter_hit)
next
  case None
  show ?thesis
    unfolding childRouter_miss [OF None] wf_world_def
  proof (intro allI impI ballI, clarify)
    fix r a b
    assume r: "r < nxt (snd (Own (nxt w), update_router this (\<lambda>r. r\<lparr>children := obj_set (default_arg n) (nxt w) (children r)\<rparr>)
       (w\<lparr>routers := (routers w)(nxt w :=
             Router (registry (routers w this)) (pipeline (routers w this)) (Some this) (default_arg n)),
          nxt := Suc (nxt w)\<rparr>)))"
      and ab: "(a, b) \<in> set (children (routers (snd (Own (nxt w), update_router this (\<lambda>r. r\<lparr>children := obj_set (default_arg n) (nxt w) (children r)\<rparr>)
       (w\<lparr>routers := (routers w)(nxt w :=
             Router (registry (routers w this)) (pipeline (routers w this)) (Some this) (default_arg n)),
          nxt := Suc (nxt w)\<rparr>))) r))"
    let ?w' = "snd (Own (nxt w), update_router this (\<lambda>r. r\<lparr>children := obj_set (default_arg n) (nxt w) (children r)\<rparr>)
       (w\<lparr>routers := (routers w)(nxt w :=
             Router (registry (routers w this)) (pipeline (routers w this)) (Some this) (default_arg n)),
          nxt := Suc (nxt w)\<rparr>))"
    have old: "\<And>r' a' b'. r' < nxt w \<Longrightarrow> (a', b') \<in> set (children (routers w r')) \<Longrightarrow>
        b' < nxt w \<and> parent (routers w b') = Some r' \<and>
        registry (routers w b') = registry (routers w r') \<and>
        pipeline (routers w b') = pipeline (routers w r')"
      using assms(1) unfolding wf_world_def by blast
    have "r < Suc (nxt w)" using r by (simp add: update_router_def)
    then consider (fresh) "r = nxt w" | (self) "r = this" | (other) "r < nxt w" "r \<noteq> this"
      by (auto simp: less_Suc_eq)
    then show "b < nxt ?w' \<and> parent (routers ?w' b) = Some r \<and>
        registry (routers ?w' b) = registry (routers ?w' r) \<and>
        pipeline (routers ?w' b) = pipeline (routers ?w' r)"
    proof cases
      case fresh
      then show ?thesis using ab assms(2) by (auto simp: update_router_def Router_def)
    next
      case self
      with ab have "(a, b) = (default_arg n, nxt w) \<or> (a, b) \<in> set (children (routers w this))"
        using set_obj_set [of "default_arg n" "nxt w" "children (routers w this)"] assms(2)
        by (auto simp: update_router_def)
      then show ?thesis
      proof
        assume "(a, b) = (default_arg n, nxt w)"
        then show ?thesis using self assms(2) by (auto simp: update_router_def Router_def)
      next
        assume m: "(a, b) \<in> set (children (routers w this))"
        from old [OF assms(2) m] show ?thesis
          using self assms(2) by (auto simp: update_router_def)
      qed
    next
      case other
      with ab have m: "(a, b) \<in> set (children (routers w r))"
        by (auto simp: update_router_def)
      from old [OF other(1) m] show ?thesis
        using other assms(2) by (auto simp: update_router_def)
    qed
  qed
qed

lemma children_kept_refl: "children_kept w w"
  by (simp add: children_kept_def)

lemma children_kept_trans:
  assumes "children_kept w1 w2" "children_kept w2 w3"
  shows "children_kept w1 w3"
  unfolding children_kept_def
proof (intro conjI allI impI)
  show "nxt w1 \<le> nxt w3" using assms by (simp add: children_kept_def)
next
  fix r n c
  assume r: "r < nxt w1" and m: "obj_get (children (routers w1 r)) n = Some c"
  then have "obj_get (children (routers w2 r)) n = Some c"
    using assms(1) by (simp add: children_kept_def)
  moreover have "r < nxt w2" using r assms(1) by (simp add: children_kept_def)
  ultimately show "obj_get (children (routers w3 r)) n = Some c"
    using assms(2) by (simp add: children_kept_def)
qed

lemma children_kept_childRouter: "children_kept w (snd (childRouter this n w))"
proof (cases "obj_get (children (routers w this)) (default_arg n)")
  case (Some c)
  then show ?thesis by (simp add: childRouter_hit children_kept_refl)
next
  case None
  let ?w' = "snd (childRouter this n w)"
  have nx: "nxt ?w' = Suc (nxt w)"
    unfolding childRouter_miss [OF None] by (simp add: update_router_def)
  show ?thesis
    unfolding children_kept_def
  proof (intro conjI allI impI)
    show "nxt w \<le> nxt ?w'" using nx by simp
  next
    fix r m c
    assume r: "r < nxt w" and g: "obj_get (children (routers w r)) m = Some c"
    show "obj_get (children (routers ?w' r)) m = Some c"
    proof (cases "r = this")
      case False
      with r g show ?thesis
        unfolding childRouter_miss [OF None] by (simp add: update_router_def)
    next
      case True
      with g None have ne: "m \<noteq> default_arg n" by auto
      from True r have "map_of (children (routers ?w' r)) =
          (map_of (children (routers w r)))(default_arg n \<mapsto> nxt w)"
        using childRouter_miss_children(1) [OF None] by simp
      with ne have "map_of (children (routers ?w' r)) m = map_of (children (routers w r)) m"
        by simp
      from obj_get_cong [OF this] g show ?thesis by simp
    qed
  qed
qed

lemma childRouter_result:
  assumes "wf_world w" and "this < nxt w" and "childRouter this n w = (c, w')"
  shows "obj_get (children (routers w' this)) (default_arg n) = Some c \<and>
         (\<forall>rc. c = Own rc \<longrightarrow> rc < nxt w') \<and>
         this < nxt w' \<and> wf_world w' \<and> children_kept w w'"
proof -
  have w': "w' = snd (childRouter this n w)" using assms(3) by simp
  have wf': "wf_world w'" unfolding w' by (rule wf_world_childRouter [OF assms(1,2)])
  have ck: "children_kept w w'" unfolding w' by (rule children_kept_childRouter)
  have hit: "obj_get (children (routers w' this)) (default_arg n) = Some c"
  proof (cases "obj_get (children (routers w this)) (default_arg n)")
    case (Some d)
    with assms(3) show ?thesis by (simp add: childRouter_hit)
  next
    case None
    have "c = fst (childRouter this n w)" using assms(3) by simp
    then have c: "c = Own (nxt w)" unfolding childRouter_miss [OF None] by simp
    have "map_of (children (routers w' this)) (default_arg n) = Some (nxt w)"
      unfolding w' childRouter_miss_children(1) [OF None assms(2)] by simp
    then show ?thesis by (simp add: c obj_get_Own_iff)
  qed
  have lt: "this < nxt w'" using ck assms(2) by (simp add: children_kept_def)
  have bound: "rc < nxt w'" if "c = Own rc" for rc
  proof -
    from hit that have "map_of (children (routers w' this)) (default_arg n) = Some rc"
      by (simp add: obj_get_Own_iff)
    then have "(default_arg n, rc) \<in> set (children (routers w' this))"
      by (rule map_of_SomeD)
    with wf' lt show ?thesis unfolding wf_world_def by blast
  qed
  with hit lt wf' ck show ?thesis by simp
qed

lemma set_router_simps [simp]:
  "component (set_router r c) = component c"
  "viewports (set_router r c) = viewports c"
  "router (set_router r c) = Some r"
  "canonicalUrl (set_router r c) = canonicalUrl c"
  by (cases c; simp)+

lemma forget_routers_set_router [simp]:
  "forget_routers (set_router r c) = forget_routers c"
  by (cases c) simp

lemma plain_set_router [simp]: "plain (set_router r c) = plain c"
  by (cases c) simp

lemma ready_mono: "ready w c \<Longrightarrow> nxt w \<le> nxt w' \<Longrightarrow> ready w' c"
  by (auto simp: ready_def split: option.splits property.splits)

lemma plain_children_all:
  "plain_children vs =
     list_all (\<lambda>(k, c). (viewports c = [] \<or> default_arg (component c) \<notin> set prototype_members) \<and>
                 plain c) vs"
  by (induction vs) auto

lemma linked_kept:
  assumes "linked w r c" and "children_kept w w'"
  shows "linked w' r c"
proof -
  from assms(1) obtain p where r: "r = Some (Own p)"
    by (auto simp: linked_def split: option.splits property.splits)
  have l: "p < nxt w \<and> router c \<noteq> None \<and>
      router c = obj_get (children (routers w p)) (default_arg (component c)) \<and>
      (\<forall>rc. router c = Some (Own rc) \<longrightarrow> rc < nxt w)"
    using assms(1) unfolding linked_def r option.case property.case .
  note p = l [THEN conjunct1] and ne = l [THEN conjunct2, THEN conjunct1]
    and g = l [THEN conjunct2, THEN conjunct2, THEN conjunct1]
    and b = l [THEN conjunct2, THEN conjunct2, THEN conjunct2]
  from ne obtain x where x: "router c = Some x" by auto
  have "obj_get (children (routers w p)) (default_arg (component c)) = Some x"
    using g x by simp
  with p assms(2) have "obj_get (children (routers w' p)) (default_arg (component c)) = Some x"
    unfolding children_kept_def by blast
  moreover have "nxt w \<le> nxt w'" using assms(2) by (simp add: children_kept_def)
  ultimately show ?thesis
    using p b x by (auto simp: linked_def r)
qed

lemma linked_transfer:
  assumes "linked w1 (Some (Own p)) c1" and "children_kept w1 w2"
    and "router c2 = router c1" and "component c2 = component c1"
  shows "linked w2 (Some (Own p)) c2"
proof -
  have "linked w2 (Some (Own p)) c1" using assms(1,2) by (rule linked_kept)
  then show ?thesis unfolding linked_def assms(3,4) .
qed

lemma routed_children_all:
  "routed_children w r vs = list_all (\<lambda>(k, c). linked w r c \<and> routed w c) vs"
  by (induction vs) auto

lemma routed_kept:
  "routed w i \<Longrightarrow> children_kept w w' \<Longrightarrow> routed w' i"
  "routed_children w r vs \<Longrightarrow> children_kept w w' \<Longrightarrow> routed_children w' r vs"
  by (induction w i and w r vs rule: routed_routed_children.induct)
     (auto intro: linked_kept)

text \<open>What \<^verbatim>\<open>childRouter\<close> does to the store is all that the synchronous walk does to it:
  a relation between stores that \<^verbatim>\<open>childRouter\<close> keeps is kept by the walk, whether it
  throws or not.\<close>

lemma forEach_fn_frame:
  assumes "\<And>w. R w w" and "\<And>a b c. R a b \<Longrightarrow> R b c \<Longrightarrow> R a c"
    and "\<And>p n w. R w (snd (childRouter p n w))"
  shows "R w (snd (snd (forEach_fn i vs w)))"
proof (induction vs arbitrary: w)
  case Nil
  show ?case by (simp add: assms(1))
next
  case (Cons a vs)
  obtain k c where a: "a = (k, c)" by (cases a)
  show ?case
  proof (cases "\<exists>p. router i = Some (Own p)")
    case True
    then obtain p where p: "router i = Some (Own p)" by blast
    have e: "snd (snd (forEach_fn i (a # vs) w)) =
        snd (snd (forEach_fn i vs (snd (childRouter p (component c) w))))"
      by (simp add: a p split_beta)
    show ?thesis
      unfolding e by (rule assms(2) [OF assms(3) Cons.IH])
  next
    case False
    then have "forEach_fn i (a # vs) w = (Some TypeError, a # vs, w)"
      by (auto simp: a split: option.splits property.splits)
    then show ?thesis by (simp add: assms(1))
  qed
qed

lemma traverse_frame:
  assumes "\<And>w. R w w" and "\<And>a b c. R a b \<Longrightarrow> R b c \<Longrightarrow> R a c"
    and "\<And>p n w. R w (snd (childRouter p n w))"
  shows "R w (snd (snd (traverseInstructionSync i w)))"
    and "R w (snd (snd (forEach_traverse vs w)))"
proof (induction i w and vs w rule: traverseInstructionSync_forEach_traverse.induct)
  case (1 instruction w)
  obtain e1 vs1 w1 where f: "forEach_fn instruction (viewports instruction) w = (e1, vs1, w1)"
    by (cases "forEach_fn instruction (viewports instruction) w") auto
  have k1: "R w w1"
    using forEach_fn_frame [of R w instruction "viewports instruction", OF assms] f by simp
  show ?case
  proof (cases e1)
    case (Some e)
    then show ?thesis
      using k1 by (subst traverseInstructionSync.simps) (simp add: f)
  next
    case None
    have "R w1 (snd (snd (forEach_traverse vs1 w1)))"
      by (rule 1 [of e1 "(vs1, w1)"]) (simp_all add: f None)
    with k1 have "R w (snd (snd (forEach_traverse vs1 w1)))" by (rule assms(2))
    then show ?thesis
      by (subst traverseInstructionSync.simps) (simp add: f None split_beta)
  qed
next
  case (2 w)
  show ?case by (simp add: assms(1))
next
  case (3 viewportName childInstruction rest w)
  obtain e1 c' w1 where f: "traverseInstructionSync childInstruction w = (e1, c', w1)"
    by (cases "traverseInstructionSync childInstruction w") auto
  have k1: "R w w1" using 3(1) f by simp
  show ?case
  proof (cases e1)
    case (Some e)
    then show ?thesis using k1 by (simp add: f)
  next
    case None
    have "R w1 (snd (snd (forEach_traverse rest w1)))"
      by (rule 3(2) [of e1 "(c', w1)"]) (simp_all add: f None)
    with k1 have "R w (snd (snd (forEach_traverse rest w1)))" by (rule assms(2))
    then show ?thesis by (simp add: f None split_beta)
  qed
qed

text \<open>On a tree whose root has a router and in which no child with viewports of its own
  is named like an inherited member, \<^verbatim>\<open>makeDescendantRouters\<close> does not throw, and every
  child ends up with what \<^verbatim>\<open>childRouter\<close> of its parent's router returns for its
  component name.\<close>

lemma forEach_fn_result:
  assumes "wf_world w" and "router i = Some (Own p)" and "p < nxt w"
  shows "\<exists>vs' w'. forEach_fn i vs w = (None, vs', w') \<and> wf_world w' \<and> children_kept w w' \<and>
           list_all2 (\<lambda>(k, c) (k', c'). k' = k \<and> (\<exists>rc. c' = set_router rc c) \<and>
                        linked w' (Some (Own p)) c')
             vs vs'"
  using assms(1,3)
proof (induction vs arbitrary: w)
  case Nil
  then show ?case by (simp add: children_kept_refl)
next
  case (Cons a vs)
  obtain k c where a: "a = (k, c)" by (cases a)
  obtain r w1 where cr: "childRouter p (component c) w = (r, w1)"
    by (cases "childRouter p (component c) w")
  from childRouter_result [OF Cons.prems cr]
  have r: "obj_get (children (routers w1 p)) (default_arg (component c)) = Some r"
    "\<forall>rc. r = Own rc \<longrightarrow> rc < nxt w1" "p < nxt w1" "wf_world w1" "children_kept w w1"
    by simp_all
  from Cons.IH [OF r(4,3)] obtain vs' w' where
    ih: "forEach_fn i vs w1 = (None, vs', w')" "wf_world w'" "children_kept w1 w'"
      "list_all2 (\<lambda>(k, c) (k', c'). k' = k \<and> (\<exists>rc. c' = set_router rc c) \<and>
                    linked w' (Some (Own p)) c')
             vs vs'"
    by blast
  have "linked w1 (Some (Own p)) (set_router r c)"
    using r by (simp add: linked_def)
  then have l: "linked w' (Some (Own p)) (set_router r c)"
    using ih(3) by (rule linked_kept)
  have "forEach_fn i (a # vs) w = (None, (k, set_router r c) # vs', w')"
    using assms(2) cr ih(1) by (simp add: a)
  moreover have "children_kept w w'"
    using r(5) ih(3) by (rule children_kept_trans)
  ultimately show ?case
    using ih(2,4) l by (auto simp: a)
qed

lemma traverse_result:
  "wf_world w \<and> ready w i \<longrightarrow>
     (\<exists>i' w'. traverseInstructionSync i w = (None, i', w') \<and> wf_world w' \<and> children_kept w w' \<and>
        routed w' i' \<and> forget_routers i' = forget_routers i \<and> router i' = router i \<and>
        component i' = component i)"
  "wf_world w \<and> list_all (\<lambda>(k, c). ready w c) vs \<longrightarrow>
     (\<exists>vs' w'. forEach_traverse vs w = (None, vs', w') \<and> wf_world w' \<and> children_kept w w' \<and>
        list_all2 (\<lambda>(k, c) (k', c'). k' = k \<and> routed w' c' \<and>
            forget_routers c' = forget_routers c \<and> router c' = router c \<and>
            component c' = component c) vs vs')"
proof (induction i w and vs w rule: traverseInstructionSync_forEach_traverse.induct)
  case (1 instruction w)
  show ?case
  proof (intro impI, elim conjE)
    assume wf: "wf_world w" and rd: "ready w instruction"
    show "\<exists>i' w'. traverseInstructionSync instruction w = (None, i', w') \<and> wf_world w' \<and>
        children_kept w w' \<and> routed w' i' \<and> forget_routers i' = forget_routers instruction \<and>
        router i' = router instruction \<and> component i' = component instruction"
    proof (cases "viewports instruction = []")
      case True
      then have "traverseInstructionSync instruction w =
          (None, Instruction (component instruction) [] (router instruction)
                   (canonicalUrl instruction), w)"
        by (subst traverseInstructionSync.simps) simp
      moreover have "Instruction (component instruction) [] (router instruction)
          (canonicalUrl instruction) = instruction"
        using True by (cases instruction) simp
      moreover have "routed w instruction"
        using True by (cases instruction) simp
      ultimately show ?thesis using wf by (simp add: children_kept_refl)
    next
      case False
      with rd obtain p where rp: "router instruction = Some (Own p)" and p: "p < nxt w"
        by (auto simp: ready_def split: option.splits property.splits)
      from rd have pl: "plain_children (viewports instruction)"
        by (cases instruction) (simp add: ready_def)
      from forEach_fn_result [OF wf rp p, of "viewports instruction"] obtain vs1 w1 where
        f: "forEach_fn instruction (viewports instruction) w = (None, vs1, w1)"
        and wf1: "wf_world w1" and ck1: "children_kept w w1"
        and l1: "list_all2 (\<lambda>(k, c) (k', c'). k' = k \<and> (\<exists>rc. c' = set_router rc c) \<and>
                   linked w1 (Some (Own p)) c') (viewports instruction) vs1"
        by blast
      have one: "ready w1 c'"
        if "(viewports c = [] \<or> default_arg (component c) \<notin> set prototype_members) \<and> plain c"
          and "c' = set_router rc c" and "linked w1 (Some (Own p)) c'" for c c' rc
      proof (cases "viewports c = []")
        case True
        with that show ?thesis by (simp add: ready_def)
      next
        case False
        with that(1) have np: "default_arg (component c) \<notin> set prototype_members" by simp
        from that(3) have g: "Some rc =
            obj_get (children (routers w1 p)) (default_arg (component c))"
          and b: "\<forall>q. rc = Own q \<longrightarrow> q < nxt w1"
          by (simp_all add: linked_def that(2))
        from g np obtain q where "rc = Own q"
          by (cases rc) (auto simp: obj_get_Inherited_iff dest: sym)
        with b that show ?thesis by (simp add: ready_def)
      qed
      have pre: "list_all (\<lambda>(k, c). ready w1 c) vs1"
        using l1 pl
      proof (induction rule: list_all2_induct)
        case Nil
        then show ?case by simp
      next
        case (Cons x xs y ys)
        obtain k c where x: "x = (k, c)" by (cases x)
        obtain k' c' where y: "y = (k', c')" by (cases y)
        from Cons.hyps(1) obtain rc where c': "c' = set_router rc c"
          and l: "linked w1 (Some (Own p)) c'"
          by (auto simp: x y)
        from Cons.prems have h: "(viewports c = [] \<or>
            default_arg (component c) \<notin> set prototype_members) \<and> plain c"
          and rest: "plain_children xs"
          by (simp_all add: x)
        from one [OF h c' l] Cons.IH [OF rest] show ?case by (simp add: y)
      qed
      have "\<exists>vs2 w2. forEach_traverse vs1 w1 = (None, vs2, w2) \<and> wf_world w2 \<and>
          children_kept w1 w2 \<and>
          list_all2 (\<lambda>(k, c) (k', c'). k' = k \<and> routed w2 c' \<and>
              forget_routers c' = forget_routers c \<and> router c' = router c \<and>
              component c' = component c) vs1 vs2"
        using 1 [of None "(vs1, w1)" vs1 w1] f wf1 pre by simp
      then obtain vs2 w2 where
        t: "forEach_traverse vs1 w1 = (None, vs2, w2)"
        and wf2: "wf_world w2" and ck2: "children_kept w1 w2"
        and l2: "list_all2 (\<lambda>(k, c) (k', c'). k' = k \<and> routed w2 c' \<and>
              forget_routers c' = forget_routers c \<and> router c' = router c \<and>
              component c' = component c) vs1 vs2"
        by blast
      let ?i' = "Instruction (component instruction) vs2 (router instruction) (canonicalUrl instruction)"
      have res: "traverseInstructionSync instruction w = (None, ?i', w2)"
        by (subst traverseInstructionSync.simps) (simp add: f t)
      have l12: "list_all2 (\<lambda>(k, c) (k', c'). k' = k \<and> linked w2 (Some (Own p)) c' \<and>
           routed w2 c' \<and> forget_routers c' = forget_routers c) (viewports instruction) vs2"
        by (rule list_all2_trans [OF _ l1 l2]) (auto intro: linked_transfer [OF _ ck2])
      have rt: "routed w2 ?i'"
        using l12 by (simp add: routed_children_all rp list_all2_conv_all_nth list_all_length split_beta)
      have "map (\<lambda>(key, i). (key, forget_routers i)) vs2 =
            map (\<lambda>(key, i). (key, forget_routers i)) (viewports instruction)"
        using l12 by (induction rule: list_all2_induct) auto
      then have fg: "forget_routers ?i' = forget_routers instruction"
        by (cases instruction) simp
      have "children_kept w w2" using ck1 ck2 by (rule children_kept_trans)
      with res wf2 rt fg show ?thesis by simp
    qed
  qed
next
  case (2 w)
  then show ?case by (simp add: children_kept_refl)
next
  case (3 viewportName childInstruction rest w)
  show ?case
  proof (intro impI, elim conjE)
    assume wf: "wf_world w"
      and pre: "list_all (\<lambda>(k, c). ready w c) ((viewportName, childInstruction) # rest)"
    from pre have rc: "ready w childInstruction" by simp
    from 3(1) wf rc obtain c' w1 where
      f: "traverseInstructionSync childInstruction w = (None, c', w1)"
      and wf1: "wf_world w1" and ck1: "children_kept w w1" and r1: "routed w1 c'"
      and e1: "forget_routers c' = forget_routers childInstruction"
        "router c' = router childInstruction" "component c' = component childInstruction"
      by blast
    have "nxt w \<le> nxt w1" using ck1 by (simp add: children_kept_def)
    with pre have pre1: "list_all (\<lambda>(k, c). ready w1 c) rest"
      by (auto simp: list_all_iff intro: ready_mono)
    have "\<exists>rest' w2. forEach_traverse rest w1 = (None, rest', w2) \<and> wf_world w2 \<and>
        children_kept w1 w2 \<and>
        list_all2 (\<lambda>(k, c) (k', c'). k' = k \<and> routed w2 c' \<and>
            forget_routers c' = forget_routers c \<and> router c' = router c \<and>
            component c' = component c) rest rest'"
      using 3(2) [of None "(c', w1)" c' w1] f wf1 pre1 by simp
    then obtain rest' w2 where
      t: "forEach_traverse rest w1 = (None, rest', w2)"
      and wf2: "wf_world w2" and ck2: "children_kept w1 w2"
      and l2: "list_all2 (\<lambda>(k, c) (k', c'). k' = k \<and> routed w2 c' \<and>
            forget_routers c' = forget_routers c \<and> router c' = router c \<and>
            component c' = component c) rest rest'"
      by blast
    have res: "forEach_traverse ((viewportName, childInstruction) # rest) w =
        (None, (viewportName, c') # rest', w2)"
      by (simp add: f t)
    have "routed w2 c'" using r1 ck2 by (rule routed_kept)
    moreover have "children_kept w w2" using ck1 ck2 by (rule children_kept_trans)
    ultimately show "\<exists>vs' w'. forEach_traverse ((viewportName, childInstruction) # rest) w =
          (None, vs', w') \<and> wf_world w' \<and> children_kept w w' \<and>
        list_all2 (\<lambda>(k, c) (k', c'). k' = k \<and> routed w' c' \<and>
            forget_routers c' = forget_routers c \<and> router c' = router c \<and>
            component c' = component c) ((viewportName, childInstruction) # rest) vs'"
      using res wf2 l2 e1 by simp
  qed
qed

lemma makeDescendantRouters_routes_plain_tree:
  assumes "wf_world w" and "router i = Some (Own p)" and "p < nxt w" and "plain i"
  shows "\<exists>i' w'. makeDescendantRouters this i w = (None, i', w') \<and>
           routed w' i' \<and> forget_routers i' = forget_routers i \<and> router i' = Some (Own p) \<and>
           wf_world w' \<and> children_kept w w'"
  using traverse_result(1) [of w i] assms
  by (auto simp: makeDescendantRouters_def ready_def)

lemma constructor_instruction_not_plain: "\<not> plain constructor_instruction"
  by (simp add: constructor_instruction_def prototype_members_def default_arg_def)

text \<open>An instruction that has viewports and no router makes \<^verbatim>\<open>makeDescendantRouters\<close>
  throw before anything is written.\<close>

lemma makeDescendantRouters_throws:
  assumes "\<forall>p. router i \<noteq> Some (Own p)" and "viewports i \<noteq> []"
  shows "makeDescendantRouters this i w = (Some TypeError, i, w)"
proof -
  from assms(2) obtain a vs where v: "viewports i = a # vs" by (cases "viewports i") auto
  obtain k c where a: "a = (k, c)" by (cases a)
  have "forEach_fn i (viewports i) w = (Some TypeError, viewports i, w)"
    using assms(1) by (auto simp: v a split: option.splits property.splits)
  then have "traverseInstructionSync i w =
      (Some TypeError, Instruction (component i) (viewports i) (router i) (canonicalUrl i), w)"
    by (subst traverseInstructionSync.simps) simp
  then show ?thesis by (cases i) (simp add: makeDescendantRouters_def)
qed

lemma linked_childRouter:
  assumes "linked w (Some (Own p)) c"
  shows "childRouter p (component c) w = (the (router c), w)"
proof -
  from assms obtain x where x: "router c = Some x" by (auto simp: linked_def)
  with assms have "obj_get (children (routers w p)) (default_arg (component c)) = Some x"
    by (simp add: linked_def)
  from childRouter_hit [OF this] x show ?thesis by simp
qed

text \<open>A call of \<^verbatim>\<open>childRouter\<close> constructs a router exactly when \<^verbatim>\<open>this.children[name]\<close>
  is \<^verbatim>\<open>undefined\<close>, and afterwards it is not.\<close>

lemma childRouter_nxt_known:
  assumes "this < nxt w"
  shows "nxt (snd (childRouter this n w)) =
           (if obj_get (children (routers w this)) (default_arg n) \<noteq> None then nxt w
            else Suc (nxt w)) \<and>
         {m. obj_get (children (routers (snd (childRouter this n w)) this)) m \<noteq> None} =
           insert (default_arg n) {m. obj_get (children (routers w this)) m \<noteq> None}"
proof (cases "obj_get (children (routers w this)) (default_arg n)")
  case None
  have m: "map_of (children (routers (snd (childRouter this n w)) this)) =
      (map_of (children (routers w this)))(default_arg n \<mapsto> nxt w)"
    by (rule childRouter_miss_children(1) [OF None assms])
  have "obj_get (children (routers (snd (childRouter this n w)) this)) m \<noteq> None \<longleftrightarrow>
      m = default_arg n \<or> obj_get (children (routers w this)) m \<noteq> None" for m
    unfolding obj_get_None_iff m by auto
  then have "{m. obj_get (children (routers (snd (childRouter this n w)) this)) m \<noteq> None} =
      insert (default_arg n) {m. obj_get (children (routers w this)) m \<noteq> None}"
    by blast
  then show ?thesis
    using None childRouter_miss_children(3) [OF None assms] by simp
next
  case (Some c)
  then have "insert (default_arg n) {m. obj_get (children (routers w this)) m \<noteq> None} =
      {m. obj_get (children (routers w this)) m \<noteq> None}"
    by auto
  then show ?thesis using Some by (simp add: childRouter_hit)
qed

lemma childRouter_count:
  assumes "wf_world w" and "this < nxt w"
  shows "nxt (foldl (\<lambda>w n. snd (childRouter this n w)) w ns) =
           nxt w + card (default_arg ` set ns -
                           {m. obj_get (children (routers w this)) m \<noteq> None})"
  using assms
proof (induction ns arbitrary: w)
  case Nil
  then show ?case by simp
next
  case (Cons n ns)
  define w1 where "w1 = snd (childRouter this n w)"
  define D where "D = {m. obj_get (children (routers w this)) m \<noteq> None}"
  define A where "A = default_arg ` set ns"
  define a where "a = default_arg n"
  have cr: "childRouter this n w = (fst (childRouter this n w), w1)"
    unfolding w1_def by (rule prod.collapse [symmetric])
  have r: "this < nxt w1" "wf_world w1"
    using childRouter_result [OF Cons.prems cr] by blast+
  have aD: "a \<in> D \<longleftrightarrow> obj_get (children (routers w this)) (default_arg n) \<noteq> None"
    by (simp add: D_def a_def)
  have n1: "nxt w1 = (if a \<in> D then nxt w else Suc (nxt w))"
    and d1: "{m. obj_get (children (routers w1 this)) m \<noteq> None} = insert a D"
    using childRouter_nxt_known [OF Cons.prems(2), of n] unfolding aD
    by (simp_all only: w1_def D_def a_def)
  have ih: "nxt (foldl (\<lambda>w n. snd (childRouter this n w)) w1 ns) = nxt w1 + card (A - insert a D)"
    using Cons.IH [OF r(2,1)] by (simp only: d1 A_def)
  have st: "foldl (\<lambda>w n. snd (childRouter this n w)) w (n # ns) =
      foldl (\<lambda>w n. snd (childRouter this n w)) w1 ns"
    by (simp add: w1_def)
  have im: "default_arg ` set (n # ns) = insert a A"
    by (simp add: A_def a_def)
  have fin: "finite A" by (simp add: A_def)
  have "card (insert a A - D) + nxt w = nxt w1 + card (A - insert a D)"
  proof (cases "a \<in> D")
    case True
    then show ?thesis using n1 by (simp add: insert_absorb)
  next
    case False
    have e: "insert a A - D = insert a (A - insert a D)" using False by auto
    have "finite (A - insert a D)" and "a \<notin> A - insert a D" using fin by simp_all
    then have "card (insert a (A - insert a D)) = Suc (card (A - insert a D))"
      by (rule card_insert_disjoint)
    then have f1: "card (insert a A - D) = Suc (card (A - insert a D))"
      by (simp only: e)
    have f2: "nxt w1 = Suc (nxt w)" using n1 False by simp
    show ?thesis using f1 f2 by linarith
  qed
  then show ?case
    unfolding st ih im D_def [symmetric] by simp
qed

lemma childRouter_count_le:
  assumes "wf_world w" and "this < nxt w"
  shows "nxt (foldl (\<lambda>w n. snd (childRouter this n w)) w ns) \<le> nxt w + card (default_arg ` set ns)"
proof -
  have "card (default_arg ` set ns - {m. obj_get (children (routers w this)) m \<noteq> None})
      \<le> card (default_arg ` set ns)"
    by (rule card_mono) auto
  then show ?thesis using childRouter_count [OF assms, of ns] by simp
qed

lemma wf_world_empty: "wf_world (empty_world gs)"
  by (simp add: wf_world_def empty_world_def)

lemma wf_world_new_router:
  assumes "wf_world w" and "children r0 = []"
  shows "wf_world (snd (new_router r0 w))"
  unfolding wf_world_def
proof (intro allI impI ballI)
  fix r x
  assume r: "r < nxt (snd (new_router r0 w))"
    and x: "x \<in> set (children (routers (snd (new_router r0 w)) r))"
  obtain n c where nc: "x = (n, c)" by (cases x)
  have ne: "r \<noteq> nxt w" using x assms(2) by (auto simp: new_router_def)
  with r have lt: "r < nxt w" by (simp add: new_router_def)
  from x ne have "(n, c) \<in> set (children (routers w r))"
    by (simp add: new_router_def nc)
  with assms(1) lt have "c < nxt w \<and> parent (routers w c) = Some r \<and>
      registry (routers w c) = registry (routers w r) \<and>
      pipeline (routers w c) = pipeline (routers w r)"
    unfolding wf_world_def by blast
  then show "case x of (n, c) \<Rightarrow> c < nxt (snd (new_router r0 w)) \<and>
      parent (routers (snd (new_router r0 w)) c) = Some r \<and>
      registry (routers (snd (new_router r0 w)) c) = registry (routers (snd (new_router r0 w)) r) \<and>
      pipeline (routers (snd (new_router r0 w)) c) = pipeline (routers (snd (new_router r0 w)) r)"
    using lt by (simp add: nc new_router_def)
qed

lemma wf_world_RootRouter: "wf_world w \<Longrightarrow> wf_world (snd (RootRouter g p w))"
  unfolding RootRouter_def by (rule wf_world_new_router) (simp_all add: Router_def)

lemma wf_hello: "wf_world hello_world"
  unfolding hello_world_def by (rule wf_world_RootRouter [OF wf_world_empty])

lemma urls_kept_refl: "urls_kept w w"
  by (simp add: urls_kept_def)

lemma urls_kept_trans:
  assumes "urls_kept w1 w2" and "urls_kept w2 w3"
  shows "urls_kept w1 w3"
  unfolding urls_kept_def
proof (intro conjI allI impI)
  show "nxt w1 \<le> nxt w3" using assms by (simp add: urls_kept_def)
next
  fix r assume "r < nxt w1"
  moreover from this have "r < nxt w2" using assms(1) by (simp add: urls_kept_def)
  ultimately show "previousUrl (routers w3 r) = previousUrl (routers w1 r)"
    and "lastNavigationAttempt (routers w3 r) = lastNavigationAttempt (routers w1 r)"
    using assms by (simp_all add: urls_kept_def)
next
  fix r assume r: "r < nxt w3" "nxt w1 \<le> r"
  show "previousUrl (routers w3 r) = None"
    and "lastNavigationAttempt (routers w3 r) = None"
    using r assms by (cases "r < nxt w2"; simp add: urls_kept_def)+
qed

lemma urls_kept_update:
  assumes "\<And>r. previousUrl (f r) = previousUrl r"
    and "\<And>r. lastNavigationAttempt (f r) = lastNavigationAttempt r"
  shows "urls_kept w (update_router this f w)"
  using assms by (simp add: urls_kept_def update_router_def)

lemma urls_kept_log: "urls_kept w (log_call c w)"
  by (simp add: urls_kept_def log_call_def)

lemma urls_kept_new:
  "previousUrl r = None \<Longrightarrow> lastNavigationAttempt r = None \<Longrightarrow> urls_kept w (snd (new_router r w))"
  by (auto simp: urls_kept_def new_router_def)

lemma urls_kept_RootRouter: "urls_kept w (snd (RootRouter g p w))"
  by (simp add: RootRouter_def urls_kept_new Router_def)

lemma urls_kept_childRouter: "urls_kept w (snd (childRouter this n w))"
proof (cases "obj_get (children (routers w this)) (default_arg n)")
  case None
  have a: "urls_kept w (snd (ChildRouter this (default_arg n) w))"
    by (simp add: ChildRouter_def urls_kept_new Router_def)
  have b: "urls_kept (snd (ChildRouter this (default_arg n) w))
     (update_router this (\<lambda>r. r\<lparr>children := obj_set (default_arg n) (fst (ChildRouter this (default_arg n) w)) (children r)\<rparr>)
        (snd (ChildRouter this (default_arg n) w)))"
    by (rule urls_kept_update) simp_all
  from urls_kept_trans [OF a b] None show ?thesis
    by (simp add: childRouter_def Let_def split_beta)
next
  case (Some c)
  then show ?thesis by (simp add: childRouter_def urls_kept_refl)
qed

lemma urls_kept_navigate:
  assumes "pipeline_keeps_urls env"
  shows "urls_kept w (snd (navigate env this u w))"
proof (cases "navigating (routers w this) \<or> lastNavigatedUrl (routers w this) = u")
  case True
  then show ?thesis by (simp add: navigate_def urls_kept_refl)
next
  case False
  let ?w1 = "log_call (CallRecognize (registry (routers w this)) u) w"
  have k1: "urls_kept w ?w1" by (rule urls_kept_log)
  show ?thesis
  proof (cases "recognize env this u w")
    case None
    with False k1 show ?thesis by (simp add: navigate_def Let_def)
  next
    case (Some found)
    let ?w2 = "startNavigating this ?w1"
    let ?i = "set_router (Own this) found"
    let ?w3 = "log_call (CallProcess (pipeline (routers ?w2 this)) ?i) ?w2"
    let ?pw = "pipeline_process env (pipeline (routers ?w2 this)) ?i ?w3"
    have k2: "urls_kept ?w1 ?w2"
      unfolding startNavigating_def by (rule urls_kept_update) simp_all
    have k3: "urls_kept ?w2 ?w3" by (rule urls_kept_log)
    have k4: "urls_kept ?w3 (snd ?pw)"
      using assms unfolding pipeline_keeps_urls_def by blast
    have k5: "urls_kept (snd ?pw) (snd (navigate_settle this ?i ?pw))"
    proof (cases "fst ?pw")
      case (Resolved v)
      have "urls_kept (snd ?pw) (finishNavigating this (snd ?pw))"
        unfolding finishNavigating_def by (rule urls_kept_update) simp_all
      moreover have "urls_kept (finishNavigating this (snd ?pw))
         (update_router this (\<lambda>r. r\<lparr>lastNavigatedUrl := canonicalUrl ?i\<rparr>)
            (finishNavigating this (snd ?pw)))"
        by (rule urls_kept_update) simp_all
      ultimately show ?thesis
        using Resolved by (simp add: navigate_settle_def Let_def) (rule urls_kept_trans)
    next
      case (Rejected reason)
      then show ?thesis by (simp add: navigate_settle_def urls_kept_refl)
    qed
    have "urls_kept w (snd (navigate_settle this ?i ?pw))"
      by (rule urls_kept_trans [OF k1 urls_kept_trans [OF k2 urls_kept_trans [OF k3 urls_kept_trans [OF k4 k5]]]])
    with False Some show ?thesis by (simp add: navigate_def Let_def)
  qed
qed

lemma urls_kept_renavigate:
  "pipeline_keeps_urls env \<Longrightarrow> urls_kept w (snd (renavigate env this w))"
  by (simp add: renavigate_def urls_kept_navigate urls_kept_refl)

lemma urls_kept_registerViewport:
  assumes "pipeline_keeps_urls env"
  shows "urls_kept w (snd (registerViewport env this v n w))"
  unfolding registerViewport_def
  by (rule urls_kept_trans [OF _ urls_kept_renavigate [OF assms]])
     (rule urls_kept_update, simp_all)

lemma urls_kept_config:
  assumes "pipeline_keeps_urls env"
  shows "urls_kept w (snd (config env this m w))"
  unfolding config_def Let_def
  by (rule urls_kept_trans [OF _ urls_kept_renavigate [OF assms]])
     (simp add: urls_kept_def)

lemma urls_kept_traverse:
  "urls_kept w (snd (snd (traverseInstructionSync i w)))"
  by (rule traverse_frame(1) [of urls_kept, OF urls_kept_refl urls_kept_trans urls_kept_childRouter])

lemma urls_kept_apply_op:
  assumes "pipeline_keeps_urls env"
  shows "urls_kept w (apply_op env this x w)"
proof (cases x)
  case (MakeDescendantRouters i)
  then show ?thesis
    by (simp add: makeDescendantRouters_def urls_kept_traverse)
qed (simp_all add: assms urls_kept_RootRouter urls_kept_navigate urls_kept_config
      urls_kept_registerViewport urls_kept_childRouter urls_kept_renavigate urls_kept_refl)

lemma urls_kept_run_ops:
  assumes "pipeline_keeps_urls env"
  shows "urls_kept w (run_ops env ops w)"
proof (induction ops arbitrary: w)
  case Nil
  then show ?case by (simp add: urls_kept_refl)
next
  case (Cons a ops)
  obtain this x where a: "a = (this, x)" by (cases a)
  show ?case
    unfolding a run_ops.simps
    by (rule urls_kept_trans [OF urls_kept_apply_op [OF assms] Cons.IH])
qed

text \<open>No router method removes a router or an entry of a \<^verbatim>\<open>children\<close> dictionary.\<close>

lemma children_kept_update:
  assumes "\<And>r. children (f r) = children r"
  shows "children_kept w (update_router this f w)"
  using assms by (simp add: children_kept_def update_router_def)

lemma children_kept_log: "children_kept w (log_call c w)"
  by (simp add: children_kept_def log_call_def)

lemma children_kept_new: "children_kept w (snd (new_router r w))"
  by (simp add: children_kept_def new_router_def)

lemma children_kept_navigate:
  assumes "pipeline_keeps_children env"
  shows "children_kept w (snd (navigate env this u w))"
proof (cases "navigating (routers w this) \<or> lastNavigatedUrl (routers w this) = u")
  case True
  then show ?thesis by (simp add: navigate_def children_kept_refl)
next
  case False
  let ?w1 = "log_call (CallRecognize (registry (routers w this)) u) w"
  have k1: "children_kept w ?w1" by (rule children_kept_log)
  show ?thesis
  proof (cases "recognize env this u w")
    case None
    with False k1 show ?thesis by (simp add: navigate_def Let_def)
  next
    case (Some found)
    let ?w2 = "startNavigating this ?w1"
    let ?i = "set_router (Own this) found"
    let ?w3 = "log_call (CallProcess (pipeline (routers ?w2 this)) ?i) ?w2"
    let ?pw = "pipeline_process env (pipeline (routers ?w2 this)) ?i ?w3"
    have k2: "children_kept ?w1 ?w2"
      unfolding startNavigating_def by (rule children_kept_update) simp
    have k3: "children_kept ?w2 ?w3" by (rule children_kept_log)
    have k4: "children_kept ?w3 (snd ?pw)"
      using assms unfolding pipeline_keeps_children_def by blast
    have k5: "children_kept (snd ?pw) (snd (navigate_settle this ?i ?pw))"
    proof (cases "fst ?pw")
      case (Resolved v)
      have "children_kept (snd ?pw) (finishNavigating this (snd ?pw))"
        unfolding finishNavigating_def by (rule children_kept_update) simp
      moreover have "children_kept (finishNavigating this (snd ?pw))
         (update_router this (\<lambda>r. r\<lparr>lastNavigatedUrl := canonicalUrl ?i\<rparr>)
            (finishNavigating this (snd ?pw)))"
        by (rule children_kept_update) simp
      ultimately show ?thesis
        using Resolved by (simp add: navigate_settle_def Let_def) (rule children_kept_trans)
    next
      case (Rejected reason)
      then show ?thesis by (simp add: navigate_settle_def children_kept_refl)
    qed
    have "children_kept w (snd (navigate_settle this ?i ?pw))"
      by (rule children_kept_trans [OF k1 children_kept_trans [OF k2 children_kept_trans
            [OF k3 children_kept_trans [OF k4 k5]]]])
    with False Some show ?thesis by (simp add: navigate_def Let_def)
  qed
qed

lemma children_kept_renavigate:
  "pipeline_keeps_children env \<Longrightarrow> children_kept w (snd (renavigate env this w))"
  by (simp add: renavigate_def children_kept_navigate children_kept_refl)

lemma children_kept_registerViewport:
  assumes "pipeline_keeps_children env"
  shows "children_kept w (snd (registerViewport env this v n w))"
  unfolding registerViewport_def
  by (rule children_kept_trans [OF _ children_kept_renavigate [OF assms]])
     (rule children_kept_update, simp)

lemma children_kept_config:
  assumes "pipeline_keeps_children env"
  shows "children_kept w (snd (config env this m w))"
  unfolding config_def Let_def
  by (rule children_kept_trans [OF _ children_kept_renavigate [OF assms]])
     (simp add: children_kept_def)

lemma children_kept_traverse:
  "children_kept w (snd (snd (traverseInstructionSync i w)))"
  by (rule traverse_frame(1) [of children_kept,
        OF children_kept_refl children_kept_trans children_kept_childRouter])

lemma children_kept_apply_op:
  assumes "pipeline_keeps_children env"
  shows "children_kept w (apply_op env this x w)"
proof (cases x)
  case (MakeDescendantRouters i)
  then show ?thesis
    by (simp add: makeDescendantRouters_def children_kept_traverse)
qed (simp_all add: assms RootRouter_def children_kept_new children_kept_navigate
      children_kept_config children_kept_registerViewport children_kept_childRouter
      children_kept_renavigate children_kept_refl)

lemma children_kept_run_ops:
  assumes "pipeline_keeps_children env"
  shows "children_kept w (run_ops env ops w)"
proof (induction ops arbitrary: w)
  case Nil
  then show ?case by (simp add: children_kept_refl)
next
  case (Cons a ops)
  obtain this x where a: "a = (this, x)" by (cases a)
  show ?case
    unfolding a run_ops.simps
    by (rule children_kept_trans [OF children_kept_apply_op [OF assms] Cons.IH])
qed

lemma childRouter_again_later:
  assumes "pipeline_keeps_children env" and "wf_world w" and "this < nxt w"
    and "childRouter this n w = (c, w')"
  shows "childRouter this n (run_ops env ops w') = (c, run_ops env ops w')"
proof -
  from childRouter_result [OF assms(2,3,4)]
  have hit: "obj_get (children (routers w' this)) (default_arg n) = Some c" and lt: "this < nxt w'"
    by simp_all
  from children_kept_run_ops [OF assms(1), of w' ops] hit lt
  have "obj_get (children (routers (run_ops env ops w') this)) (default_arg n) = Some c"
    unfolding children_kept_def by blast
  then show ?thesis by (rule childRouter_hit)
qed

section \<open>The guard of navigate\<close>

text \<open>
  C4. If the router is navigating, or the argument equals \<^verbatim>\<open>lastNavigatedUrl\<close>,
  \<^verbatim>\<open>navigate(url)\<close> returns an already resolved promise and leaves the whole store as it
  was: no field of any router changes, and neither \<^verbatim>\<open>Grammar.recognize\<close> nor
  \<^verbatim>\<open>Pipeline.process\<close> is called.
\<close>

theorem navigate_guard_is_noop:
  assumes "navigating (routers w this) \<or> lastNavigatedUrl (routers w this) = u"
  shows "navigate env this u w = (Resolved Undefined, w) \<and>
         calls (snd (navigate env this u w)) = calls w"
  using assms by (simp add: navigate_def)

theorem navigate_guard_is_noop_witness:
  "navigating (routers (startNavigating 0 hello_world) 0) \<and>
   navigate (table_env fulfilling) 0 (Some ''/goodbye'') (startNavigating 0 hello_world) =
     (Resolved Undefined, startNavigating 0 hello_world) \<and>
   calls (snd (navigate (table_env fulfilling) 0 (Some ''/goodbye'')
                 (startNavigating 0 hello_world))) = []"
proof -
  have h: "navigating (routers (startNavigating 0 hello_world) 0) \<or>
           lastNavigatedUrl (routers (startNavigating 0 hello_world) 0) = Some ''/goodbye''"
    by (simp add: example_defs router_defs)
  have c: "calls (startNavigating 0 hello_world) = []"
    by (simp add: example_defs router_defs)
  show ?thesis
    using h c navigate_guard_is_noop [OF h, of "table_env fulfilling"]
    by (simp add: example_defs router_defs)
qed



section \<open>Navigation to a URL that has no route\<close>

text \<open>
  C3 as stated fails: an idle router whose \<^verbatim>\<open>lastNavigatedUrl\<close> is the argument returns a
  resolved promise although the Grammar has no route for it, because the guard comes
  before \<^verbatim>\<open>recognize\<close>.
\<close>

theorem navigate_no_match_counterexample:
  "\<not> navigating (routers reconfigured_world 0) \<and>
   recognize (table_env fulfilling) 0 (Some ''/welcome'') reconfigured_world = None \<and>
   fst (navigate (table_env fulfilling) 0 (Some ''/welcome'') reconfigured_world) =
     Resolved Undefined"
  by (simp add: example_defs router_defs)

text \<open>
  C3, amended. For an idle router and a URL that differs from \<^verbatim>\<open>lastNavigatedUrl\<close> and
  for which \<^verbatim>\<open>Grammar.recognize\<close> finds no route, \<^verbatim>\<open>navigate(url)\<close> returns a rejected
  promise; the router is never marked navigating and no router, nor the Grammar, changes.
\<close>

theorem navigate_no_match_rejects:
  assumes "\<not> navigating (routers w this)"
    and "lastNavigatedUrl (routers w this) \<noteq> u"
    and "recognize env this u w = None"
  shows "fst (navigate env this u w) = Rejected Undefined \<and>
         routers (snd (navigate env this u w)) = routers w \<and>
         nxt (snd (navigate env this u w)) = nxt w \<and>
         grammars (snd (navigate env this u w)) = grammars w \<and>
         \<not> navigating (routers (snd (navigate env this u w)) this)"
  using assms by (simp add: navigate_def Let_def log_call_def)

theorem navigate_no_match_rejects_witness:
  "fst (navigate (table_env fulfilling) 0 (Some ''/nowhere'') hello_world) =
     Rejected Undefined \<and>
   routers (snd (navigate (table_env fulfilling) 0 (Some ''/nowhere'') hello_world)) =
     routers hello_world \<and>
   \<not> navigating
       (routers (snd (navigate (table_env fulfilling) 0 (Some ''/nowhere'') hello_world)) 0)"
proof -
  have h1: "\<not> navigating (routers hello_world 0)"
    by (simp add: example_defs router_defs)
  have h2: "lastNavigatedUrl (routers hello_world 0) \<noteq> Some ''/nowhere''"
    by (simp add: example_defs router_defs)
  have h3: "recognize (table_env fulfilling) 0 (Some ''/nowhere'') hello_world = None"
    by (simp add: example_defs router_defs)
  show ?thesis
    using h1 navigate_no_match_rejects [OF h1 h2 h3] by simp
qed

section \<open>A navigation that the Pipeline rejects\<close>

text \<open>
  When the Pipeline's promise is rejected, the promise of \<^verbatim>\<open>navigate\<close> is rejected with
  the same reason, and the store is left as the Pipeline left it: \<^verbatim>\<open>navigating\<close> has been
  set before \<^verbatim>\<open>process\<close> was called and nothing resets it afterwards.
\<close>

lemma navigate_rejected_by_pipeline:
  assumes "\<not> navigating (routers w this)"
    and "lastNavigatedUrl (routers w this) \<noteq> u"
    and "recognize env this u w = Some found"
    and "fst (pipeline_process env (pipeline (routers w this)) (set_router (Own this) found)
               (log_call (CallProcess (pipeline (routers w this)) (set_router (Own this) found))
                  (startNavigating this
                     (log_call (CallRecognize (registry (routers w this)) u) w)))) =
         Rejected reason"
  shows "navigate env this u w =
     (Rejected reason,
      snd (pipeline_process env (pipeline (routers w this)) (set_router (Own this) found)
             (log_call (CallProcess (pipeline (routers w this)) (set_router (Own this) found))
                (startNavigating this
                   (log_call (CallRecognize (registry (routers w this)) u) w))))) \<and>
     navigating
       (routers (log_call (CallProcess (pipeline (routers w this)) (set_router (Own this) found))
                  (startNavigating this
                     (log_call (CallRecognize (registry (routers w this)) u) w))) this)"
  using assms
  by (simp add: navigate_def navigate_settle_def Let_def startNavigating_def update_router_def
      log_call_def)

text \<open>
  C1. The promise of \<^verbatim>\<open>navigate\<close> is rejected with the Pipeline's reason and
  \<^verbatim>\<open>lastNavigatedUrl\<close> is unchanged, but the router is still marked navigating after the
  rejection: the chain on the Pipeline's promise has no rejection handler. From then on
  every \<^verbatim>\<open>navigate\<close> is stopped by the guard, here one to \<^verbatim>\<open>/goodbye\<close>.
\<close>

theorem navigate_rejection_leaves_navigating:
  "fst (navigate (table_env rejecting) 0 (Some ''/welcome'') hello_world) =
     Rejected (Str ''boom'') \<and>
   lastNavigatedUrl (routers rejected_world 0) = lastNavigatedUrl (routers hello_world 0) \<and>
   navigating (routers rejected_world 0) \<and>
   navigate (table_env fulfilling) 0 (Some ''/goodbye'') rejected_world =
     (Resolved Undefined, rejected_world)"
  by (simp add: example_defs router_defs)

section \<open>Registering a viewport after a navigation\<close>

text \<open>
  \<^verbatim>\<open>registerViewport\<close> stores the view under the name, in place of an earlier one
  (but for the name \<^verbatim>\<open>__proto__\<close>, which makes no own property), and
  calls \<^verbatim>\<open>renavigate\<close>, which passes a truthy \<^verbatim>\<open>previousUrl\<close>, or else a truthy
  \<^verbatim>\<open>lastNavigationAttempt\<close>, to \<^verbatim>\<open>navigate\<close> when the router is not navigating.
\<close>

lemma registerViewport_stores_view:
  "registerViewport env this v n w =
     renavigate env this
       (update_router this (\<lambda>r. r\<lparr>ports := obj_set (default_arg n) v (ports r)\<rparr>) w) \<and>
   (default_arg n \<notin> set prototype_members \<longrightarrow>
      map_of (obj_set (default_arg n) v (ports (routers w this))) =
        (map_of (ports (routers w this)))(default_arg n \<mapsto> v))"
  by (simp add: registerViewport_def map_of_obj_set)

text \<open>A port whose name is an array index is listed before the ports registered earlier
  under other names.\<close>

lemma registerViewport_key_order:
  "ports (routers (snd (registerViewport (table_env fulfilling) 0 8 (Some ''1'')
       (snd (registerViewport (table_env fulfilling) 0 7 (Some ''b'') hello_world)))) 0) =
     [(''1'', 8), (''b'', 7)]"
  by (simp add: example_defs router_defs)

lemma renavigate_reissues_navigate:
  assumes "\<not> navigating (routers w this)"
    and "url_truthy (previousUrl (routers w this)) \<or>
         url_truthy (lastNavigationAttempt (routers w this))"
  shows "renavigate env this w =
     navigate env this
       (if url_truthy (previousUrl (routers w this)) then previousUrl (routers w this)
        else lastNavigationAttempt (routers w this)) w"
  using assms by (auto simp: renavigate_def renavigateDestination_def)

text \<open>
  C2. After a successful navigation \<^verbatim>\<open>previousUrl\<close> and \<^verbatim>\<open>lastNavigationAttempt\<close>
  are still \<^verbatim>\<open>undefined\<close>, so registering a view replays nothing: the view is stored,
  the promise resolves, and the Pipeline has been called once, for the navigation itself,
  and not again for the view registered afterwards.
\<close>

theorem registerViewport_replays_nothing:
  "fst (navigate (table_env fulfilling) 0 (Some ''/'') hello_world) = Resolved (Str ''/welcome'') \<and>
   renavigateDestination (routers navigated_world 0) = None \<and>
   fst (registerViewport (table_env fulfilling) 0 7 None navigated_world) = Resolved Undefined \<and>
   ports (routers (snd (registerViewport (table_env fulfilling) 0 7 None navigated_world)) 0) =
     [(''default'', 7)] \<and>
   calls (snd (registerViewport (table_env fulfilling) 0 7 None navigated_world)) =
     calls navigated_world \<and>
   length (filter (\<lambda>c. case c of CallProcess p i \<Rightarrow> True | _ \<Rightarrow> False)
             (calls (snd (registerViewport (table_env fulfilling) 0 7 None navigated_world)))) = 1"
  by (simp add: example_defs router_defs)

section \<open>Child routers are memoized by name\<close>

text \<open>
  In a well-formed store, \<^verbatim>\<open>childRouter(name)\<close> called again returns the identical
  value and constructs nothing; one call constructs at most one router and none when
  \<^verbatim>\<open>this.children[name]\<close> is not \<^verbatim>\<open>undefined\<close>; any sequence of calls constructs at
  most one router for each distinct name; and the same value is returned again after any
  method calls made in between, provided the Pipeline keeps the \<^verbatim>\<open>children\<close>
  dictionaries. The value is a router exactly when the name is an own key or is not the
  name of an inherited member, and then that router has \<^verbatim>\<open>this\<close> as its parent and the
  same Grammar and Pipeline objects as \<^verbatim>\<open>this\<close>.
\<close>

lemma childRouter_returns_same:
  assumes "wf_world w" and "this < nxt w" and "childRouter this n w = (c, w')"
  shows "childRouter this n w' = (c, w') \<and>
         (\<forall>r. c = Own r \<longrightarrow>
            parent (routers w' r) = Some this \<and>
            registry (routers w' r) = registry (routers w' this) \<and>
            pipeline (routers w' r) = pipeline (routers w' this)) \<and>
         ((\<exists>r. c = Own r) \<longleftrightarrow>
            map_of (children (routers w this)) (default_arg n) \<noteq> None \<or>
            default_arg n \<notin> set prototype_members) \<and>
         nxt w' \<le> Suc (nxt w) \<and>
         (obj_get (children (routers w this)) (default_arg n) \<noteq> None \<longrightarrow> w' = w) \<and>
         nxt (foldl (\<lambda>w n. snd (childRouter this n w)) w ns) \<le>
           nxt w + card (default_arg ` set ns) \<and>
         (pipeline_keeps_children env \<longrightarrow>
            childRouter this n (run_ops env ops w') = (c, run_ops env ops w'))"
proof -
  from childRouter_result [OF assms]
  have hit: "obj_get (children (routers w' this)) (default_arg n) = Some c"
    and lt: "this < nxt w'" and wf': "wf_world w'"
    by simp_all
  have a: "childRouter this n w' = (c, w')" using hit by (rule childRouter_hit)
  have b: "parent (routers w' r) = Some this \<and>
      registry (routers w' r) = registry (routers w' this) \<and>
      pipeline (routers w' r) = pipeline (routers w' this)" if "c = Own r" for r
  proof -
    from hit that have "map_of (children (routers w' this)) (default_arg n) = Some r"
      by (simp add: obj_get_Own_iff)
    then have "(default_arg n, r) \<in> set (children (routers w' this))"
      by (rule map_of_SomeD)
    with wf' lt show ?thesis unfolding wf_world_def by blast
  qed
  have c: "(\<exists>r. c = Own r) \<longleftrightarrow>
      map_of (children (routers w this)) (default_arg n) \<noteq> None \<or>
      default_arg n \<notin> set prototype_members"
  proof (cases "obj_get (children (routers w this)) (default_arg n)")
    case None
    with assms(3) have "c = Own (nxt w)" by (simp add: childRouter_miss)
    with None show ?thesis by (simp add: obj_get_None_iff)
  next
    case (Some d)
    with assms(3) have "c = d" by (simp add: childRouter_hit)
    with Some show ?thesis
      by (cases d) (auto simp: obj_get_Own_iff obj_get_Inherited_iff)
  qed
  have d: "nxt w' \<le> Suc (nxt w) \<and>
      (obj_get (children (routers w this)) (default_arg n) \<noteq> None \<longrightarrow> w' = w)"
  proof (cases "obj_get (children (routers w this)) (default_arg n)")
    case None
    from childRouter_miss_children(3) [OF None assms(2)] assms(3) None show ?thesis by simp
  next
    case (Some d)
    with assms(3) show ?thesis by (simp add: childRouter_hit)
  qed
  show ?thesis
    using a b c d childRouter_count_le [OF assms(1,2), of ns]
      childRouter_again_later [OF _ assms, of env ops]
    by blast
qed

lemma building_keeps_children: "pipeline_keeps_children (table_env building)"
  unfolding pipeline_keeps_children_def
proof (intro allI)
  fix p i and w :: "routes world"
  show "children_kept w (snd (pipeline_process (table_env building) p i w))"
    using children_kept_traverse [of w i]
    by (auto simp: table_env_def building_def makeDescendantRouters_def children_kept_refl
        split: option.splits property.splits prod.splits)
qed

text \<open>
  C7. On a fresh root router, \<^verbatim>\<open>childRouter('constructor')\<close> constructs nothing and
  returns no router: \<^verbatim>\<open>this.children\<close> is a plain object, so
  \<^verbatim>\<open>this.children['constructor']\<close> reads the member \<^verbatim>\<open>constructor\<close> inherited from
  \<^verbatim>\<open>Object.prototype\<close>, which is truthy and handed back as it is. The store is left
  as it was, with an empty \<^verbatim>\<open>children\<close> dictionary. For a name that is not inherited,
  here \<^verbatim>\<open>users\<close>, the same call constructs router 1, whose parent is the root, and
  returns it again when asked again.
\<close>

theorem childRouter_inherited_name_is_no_router:
  "childRouter 0 (Some ''constructor'') hello_world = (Inherited ''constructor'', hello_world) \<and>
   children (routers hello_world 0) = [] \<and> nxt hello_world = 1 \<and>
   fst (childRouter 0 (Some ''users'') hello_world) = Own 1 \<and>
   parent (routers (snd (childRouter 0 (Some ''users'') hello_world)) 1) = Some 0 \<and>
   childRouter 0 (Some ''users'') (snd (childRouter 0 (Some ''users'') hello_world)) =
     (Own 1, snd (childRouter 0 (Some ''users'') hello_world))"
  by (simp add: example_defs router_defs Let_def)

section \<open>makeDescendantRouters\<close>

text \<open>
  C8. In the route with two sibling viewports whose right component is named
  \<^verbatim>\<open>constructor\<close>, \<^verbatim>\<open>makeDescendantRouters\<close> gives the left child router 1 and the right
  child the inherited member \<^verbatim>\<open>constructor\<close>, which is what \<^verbatim>\<open>childRouter\<close> returns for
  that name. It then walks the left child, whose own child gets router 2, and throws at
  the right child, on which \<^verbatim>\<open>instruction.router.childRouter\<close> is no function: the child
  instruction for \<^verbatim>\<open>detail\<close> is never given a router. The routers constructed before the
  throw stay in the store. On the route whose components are named \<^verbatim>\<open>users\<close>,
  \<^verbatim>\<open>posts\<close> and so on, the walk does not throw.
\<close>

theorem makeDescendantRouters_inherited_component_throws:
  "fst (makeDescendantRouters 0 constructor_instruction hello_world) = Some TypeError \<and>
   fst (snd (makeDescendantRouters 0 constructor_instruction hello_world)) =
     Instruction None
       [(''left'',
           Instruction (Some ''users'')
             [(''default'', Instruction (Some ''user'') [] (Some (Own 2)) None)]
             (Some (Own 1)) None),
        (''right'',
           Instruction (Some ''constructor'')
             [(''default'', Instruction (Some ''detail'') [] None None)]
             (Some (Inherited ''constructor'')) None)]
       (Some (Own 0)) (Some ''/users/constructor'') \<and>
   nxt (snd (snd (makeDescendantRouters 0 constructor_instruction hello_world))) = 3 \<and>
   children (routers (snd (snd (makeDescendantRouters 0 constructor_instruction hello_world))) 0) =
     [(''users'', 1)] \<and>
   fst (makeDescendantRouters 0 nested_instruction hello_world) = None"
  by (simp add: constructor_instruction_def nested_defs example_defs router_defs Let_def)

section \<open>The URL fields that renavigate reads\<close>

text \<open>
  C9. Provided the Pipeline leaves them alone as well, no router method assigns
  \<^verbatim>\<open>previousUrl\<close> or \<^verbatim>\<open>lastNavigationAttempt\<close>: after any method call they are what
  they were on every existing router, and \<^verbatim>\<open>undefined\<close> on every router constructed by
  the call. So after any sequence of method calls on a store that started with a fresh
  \<^verbatim>\<open>RootRouter\<close>, both fields of every router are \<^verbatim>\<open>undefined\<close>, the destination of
  \<^verbatim>\<open>renavigate\<close> is falsy, and \<^verbatim>\<open>renavigate()\<close> resolves without calling
  \<^verbatim>\<open>navigate\<close> and without any effect.
\<close>

theorem url_fields_never_assigned:
  assumes "pipeline_keeps_urls env"
  shows "urls_kept w (apply_op env this x w) \<and>
         (\<forall>r < nxt (run_ops env ops (snd (RootRouter g p (empty_world gs)))).
            previousUrl (routers (run_ops env ops (snd (RootRouter g p (empty_world gs)))) r) = None \<and>
            lastNavigationAttempt (routers (run_ops env ops (snd (RootRouter g p (empty_world gs)))) r) = None \<and>
            \<not> url_truthy (renavigateDestination
                 (routers (run_ops env ops (snd (RootRouter g p (empty_world gs)))) r)) \<and>
            renavigate env r (run_ops env ops (snd (RootRouter g p (empty_world gs)))) =
              (Resolved Undefined, run_ops env ops (snd (RootRouter g p (empty_world gs)))))"
proof -
  let ?w = "run_ops env ops (snd (RootRouter g p (empty_world gs)))"
  have "urls_kept (empty_world gs) (snd (RootRouter g p (empty_world gs)))"
    by (rule urls_kept_RootRouter)
  then have k: "urls_kept (empty_world gs) ?w"
    by (rule urls_kept_trans [OF _ urls_kept_run_ops [OF assms]])
  have n: "\<forall>r < nxt ?w. previousUrl (routers ?w r) = None \<and> lastNavigationAttempt (routers ?w r) = None"
    using k by (simp add: urls_kept_def empty_world_def)
  then show ?thesis
    using urls_kept_apply_op [OF assms]
    by (simp add: renavigate_def renavigateDestination_def url_truthy_def)
qed


theorem url_fields_never_assigned_witness:
  "pipeline_keeps_urls (table_env building) \<and>
   nxt built_world = 2 \<and>
   children (routers built_world 0) = [(''welcome'', 1)] \<and>
   ports (routers built_world 0) = [(''default'', 7)] \<and>
   lastNavigatedUrl (routers built_world 0) = Some ''/welcome'' \<and>
   previousUrl (routers built_world 0) = None \<and>
   lastNavigationAttempt (routers built_world 0) = None \<and>
   renavigate (table_env building) 0 built_world = (Resolved Undefined, built_world) \<and>
   renavigate (table_env building) 1 built_world = (Resolved Undefined, built_world)"
proof -
  have h: "pipeline_keeps_urls (table_env building)"
    unfolding pipeline_keeps_urls_def
  proof (intro allI)
    fix p i and w :: "routes world"
    show "urls_kept w (snd (pipeline_process (table_env building) p i w))"
      using urls_kept_traverse [of w i]
      by (auto simp: table_env_def building_def makeDescendantRouters_def urls_kept_refl
          split: option.splits property.splits prod.splits)
  qed
  have e: "nxt built_world = 2"
    "children (routers built_world 0) = [(''welcome'', 1)]"
    "ports (routers built_world 0) = [(''default'', 7)]"
    "lastNavigatedUrl (routers built_world 0) = Some ''/welcome''"
    by (simp_all add: example_defs router_defs makeDescendantRouters_def
        traverseInstructionSync.simps Let_def)
  from url_fields_never_assigned [OF h, of _ _ _
      "[(0, Navigate (Some ''/'')), (0, RegisterViewport 7 None)]" 0 0 "\<lambda>_. hello_routes"]
  have a: "\<forall>r < nxt built_world.
      previousUrl (routers built_world r) = None \<and>
      lastNavigationAttempt (routers built_world r) = None \<and>
      \<not> url_truthy (renavigateDestination (routers built_world r)) \<and>
      renavigate (table_env building) r built_world = (Resolved Undefined, built_world)"
    unfolding built_world_def by blast
  have "(0::nat) < nxt built_world" "(1::nat) < nxt built_world" by (simp_all add: e)
  with a have "previousUrl (routers built_world 0) = None \<and>
      lastNavigationAttempt (routers built_world 0) = None \<and>
      renavigate (table_env building) 0 built_world = (Resolved Undefined, built_world) \<and>
      renavigate (table_env building) 1 built_world = (Resolved Undefined, built_world)"
    by blast
  with h e show ?thesis by simp
qed

section \<open>The asynchronous walks: auxiliary facts\<close>

lemma nested_order_append:
  "nested_order (xs @ ys) \<longleftrightarrow>
     nested_order xs \<and> nested_order ys \<and>
     (\<forall>x \<in> set xs. \<forall>y \<in> set ys. \<not> strict_prefix (place y) (place x))"
  by (induction xs) auto

lemma nested_order_same_place:
  "\<forall>v \<in> set b. place v = q \<Longrightarrow> nested_order b"
  by (induction b) auto

lemma strict_prefix_snoc_iff: "strict_prefix q (p @ [k]) \<longleftrightarrow> prefix q p"
  by (auto simp: strict_prefix_def)

lemma then_continue_trace [simp]: "trace (then_continue b cb s) = trace s @ b"
  by (simp add: then_continue_def)

lemma then_continue_pending:
  "pending (then_continue b cb s) =
     (if list_all (\<lambda>v. is_resolved (settled v)) b then pending s @ [cb] else pending s)"
  by (simp add: then_continue_def)

lemma then_continue_failed:
  "failed (then_continue b cb s) = (failed s \<or> \<not> list_all (\<lambda>v. is_resolved (settled v)) b)"
  by (simp add: then_continue_def)

lemma spawn_inv_then_continue:
  assumes inv: "spawn_inv p k s" and b: "\<forall>v \<in> set b. place v = p @ [k]"
  shows "spawn_inv p (Suc k) (then_continue b (p @ [k], n) s)"
proof -
  let ?T = "set (trace s)" and ?P = "fst ` set (pending s)"
  let ?s' = "then_continue b (p @ [k], n) s"
  let ?ok = "list_all (\<lambda>v. is_resolved (settled v)) b"
  note r0 = inv [unfolded spawn_inv_def]
  note a1 = r0 [THEN conjunct1] and r1 = r0 [THEN conjunct2]
  note a2 = r1 [THEN conjunct1] and r2 = r1 [THEN conjunct2]
  note a3 = r2 [THEN conjunct1] and r3 = r2 [THEN conjunct2]
  note a4 = r3 [THEN conjunct1] and r4 = r3 [THEN conjunct2]
  note a5 = r4 [THEN conjunct1] and r5 = r4 [THEN conjunct2]
  note a6 = r5 [THEN conjunct1] and r6 = r5 [THEN conjunct2]
  note a7 = r6 [THEN conjunct1] and r7 = r6 [THEN conjunct2]
  note a8 = r7 [THEN conjunct1] and a9 = r7 [THEN conjunct2]
  have k1: "\<not> prefix (p @ [k]) (place v)" if "v \<in> ?T" for v
  proof
    assume pr: "prefix (p @ [k]) (place v)"
    then have "strict_prefix p (place v)" by (rule prefix_snocD)
    with a4 that obtain j where "j < k" "place v = p @ [j]" by blast
    with pr show False by simp
  qed
  have k2: "\<not> prefix (p @ [k]) q \<and> \<not> prefix q (p @ [k])" if "q \<in> ?P" for q
  proof -
    have "\<not> prefix (p @ [k]) q"
    proof
      assume pr: "prefix (p @ [k]) q"
      then have "strict_prefix p q" by (rule prefix_snocD)
      then have "prefix p q" by (simp add: strict_prefix_def)
      with a8 that obtain j where "j < k" "q = p @ [j]" by blast
      with pr show False by simp
    qed
    moreover have "\<not> prefix q (p @ [k])"
    proof
      assume "prefix q (p @ [k])"
      then have "q = p @ [k] \<or> prefix q p" by simp
      with a8 that have "q = p @ [k]" by blast
      with \<open>\<not> prefix (p @ [k]) q\<close> show False by simp
    qed
    ultimately show ?thesis ..
  qed
  have P': "fst ` set (pending ?s') \<subseteq> insert (p @ [k]) ?P"
    and P'ok: "\<not> ?ok \<Longrightarrow> pending ?s' = pending s"
    and P'in: "?ok \<Longrightarrow> pending ?s' = pending s @ [(p @ [k], n)]"
    by (auto simp: then_continue_pending)
  have g1: "nested_order (trace ?s')"
    using a1 b k1 nested_order_same_place [of b "p @ [k]"]
    by (auto simp: nested_order_append strict_prefix_def)
  have g2: "barrier (trace ?s')"
    unfolding barrier_def
  proof (intro ballI impI)
    fix v v'
    assume v: "v \<in> set (trace ?s')" and rej: "\<not> is_resolved (settled v)"
      and v': "v' \<in> set (trace ?s')"
    show "\<not> strict_prefix (place v) (place v')"
    proof (cases "v \<in> ?T")
      case True
      show ?thesis
      proof (cases "v' \<in> ?T")
        case True
        with a2 \<open>v \<in> ?T\<close> rej show ?thesis unfolding barrier_def by blast
      next
        case False
        with v' b have "place v' = p @ [k]" by auto
        moreover have "\<not> prefix (place v) p" using a5 True rej by blast
        ultimately show ?thesis by (simp add: strict_prefix_snoc_iff)
      qed
    next
      case False
      with v b have pv: "place v = p @ [k]" by auto
      show ?thesis
      proof (cases "v' \<in> ?T")
        case True
        then show ?thesis using k1 pv by (auto simp: strict_prefix_def)
      next
        case False
        with v' b have "place v' = p @ [k]" by auto
        with pv show ?thesis by simp
      qed
    qed
  qed
  have g3: "\<forall>v \<in> set (trace ?s'). \<forall>q \<in> fst ` set (pending ?s'). \<not> strict_prefix q (place v)"
  proof (intro ballI)
    fix v q
    assume v: "v \<in> set (trace ?s')" and q: "q \<in> fst ` set (pending ?s')"
    from q P' have q': "q = p @ [k] \<or> q \<in> ?P" by blast
    show "\<not> strict_prefix q (place v)"
    proof (cases "v \<in> ?T")
      case True
      with q' a3 k1 show ?thesis by (auto simp: strict_prefix_def)
    next
      case False
      with v b have "place v = p @ [k]" by auto
      with q' a8 show ?thesis by (auto simp: strict_prefix_snoc_iff)
    qed
  qed
  have g4: "\<forall>v \<in> set (trace ?s'). strict_prefix p (place v) \<longrightarrow> (\<exists>j<Suc k. place v = p @ [j])"
  proof (intro ballI impI)
    fix v
    assume v: "v \<in> set (trace ?s')" and sp: "strict_prefix p (place v)"
    show "\<exists>j<Suc k. place v = p @ [j]"
    proof (cases "v \<in> ?T")
      case True
      with a4 sp obtain j where "j < k" "place v = p @ [j]" by blast
      then show ?thesis using less_Suc_eq by blast
    next
      case False
      with v b have "place v = p @ [k]" by auto
      then show ?thesis by blast
    qed
  qed
  have g5: "\<forall>v \<in> set (trace ?s'). \<not> is_resolved (settled v) \<longrightarrow>
        \<not> prefix (place v) p \<and> (\<forall>q \<in> fst ` set (pending ?s'). \<not> prefix (place v) q)"
  proof (intro ballI impI)
    fix v
    assume v: "v \<in> set (trace ?s')" and rej: "\<not> is_resolved (settled v)"
    show "\<not> prefix (place v) p \<and> (\<forall>q \<in> fst ` set (pending ?s'). \<not> prefix (place v) q)"
    proof (cases "v \<in> ?T")
      case True
      with a5 rej have np: "\<not> prefix (place v) p" and nq: "\<forall>q \<in> ?P. \<not> prefix (place v) q"
        by blast+
      have nk: "\<not> prefix (place v) (p @ [k])"
        using np k1 [OF True] by auto
      have "\<not> prefix (place v) q" if "q \<in> fst ` set (pending ?s')" for q
      proof -
        from that P' have "q = p @ [k] \<or> q \<in> ?P" by blast
        then show ?thesis using nk nq by blast
      qed
      with np show ?thesis by blast
    next
      case False
      with v b have pv: "place v = p @ [k]" and "v \<in> set b" by auto
      with rej have "\<not> ?ok" by (auto simp: list_all_iff)
      then have "pending ?s' = pending s" by (rule P'ok)
      with pv k2 show ?thesis by simp
    qed
  qed
  have nin: "p @ [k] \<notin> ?P"
    using k2 by blast
  have g6: "distinct (map fst (pending ?s'))"
    using a6 nin by (auto simp: then_continue_pending)
  have g7: "\<forall>q \<in> fst ` set (pending ?s'). \<forall>q' \<in> fst ` set (pending ?s'). prefix q q' \<longrightarrow> q = q'"
  proof (intro ballI impI)
    fix q q'
    assume "q \<in> fst ` set (pending ?s')" "q' \<in> fst ` set (pending ?s')" and pr: "prefix q q'"
    with P' have "q = p @ [k] \<or> q \<in> ?P" "q' = p @ [k] \<or> q' \<in> ?P" by blast+
    with pr a7 k2 show "q = q'" by blast
  qed
  have g8: "\<forall>q \<in> fst ` set (pending ?s'). \<not> prefix q p \<and> (prefix p q \<longrightarrow> (\<exists>j<Suc k. q = p @ [j]))"
  proof (intro ballI)
    fix q
    assume "q \<in> fst ` set (pending ?s')"
    with P' have "q = p @ [k] \<or> q \<in> ?P" by blast
    then show "\<not> prefix q p \<and> (prefix p q \<longrightarrow> (\<exists>j<Suc k. q = p @ [j]))"
    proof
      assume "q = p @ [k]"
      then show ?thesis by auto
    next
      assume "q \<in> ?P"
      with a8 show ?thesis using less_Suc_eq by blast
    qed
  qed
  have g9: "(\<exists>v \<in> set (trace ?s'). \<not> is_resolved (settled v)) \<longrightarrow> failed ?s'"
    using a9 by (auto simp: then_continue_failed list_all_iff)
  show ?thesis
    unfolding spawn_inv_def by (intro conjI g1 g2 g3 g4 g5 g6 g7 g8 g9)
qed

lemma walk_inv_failed: "walk_inv s \<Longrightarrow> walk_inv (s\<lparr>failed := True\<rparr>)"
  by (simp add: walk_inv_def)

lemma spawn_inv_walk_inv:
  assumes "spawn_inv p k s"
  shows "walk_inv s"
proof -
  note r0 = assms [unfolded spawn_inv_def]
  note a1 = r0 [THEN conjunct1] and r1 = r0 [THEN conjunct2]
  note a2 = r1 [THEN conjunct1] and r2 = r1 [THEN conjunct2]
  note a3 = r2 [THEN conjunct1] and r3 = r2 [THEN conjunct2]
  note a4 = r3 [THEN conjunct1] and r4 = r3 [THEN conjunct2]
  note a5 = r4 [THEN conjunct1] and r5 = r4 [THEN conjunct2]
  note a6 = r5 [THEN conjunct1] and r6 = r5 [THEN conjunct2]
  note a7 = r6 [THEN conjunct1] and r7 = r6 [THEN conjunct2]
  note a8 = r7 [THEN conjunct1] and a9 = r7 [THEN conjunct2]
  have g4: "\<forall>v \<in> set (trace s). \<not> is_resolved (settled v) \<longrightarrow>
        (\<forall>q \<in> fst ` set (pending s). \<not> prefix (place v) q)"
    using a5 by blast
  show ?thesis
    unfolding walk_inv_def by (intro conjI a1 a2 a3 g4 a6 a7 a9)
qed

lemma walk_inv_mapObjAsync:
  assumes "spawn_inv p k s"
    and "\<forall>b m. Some (b, m) \<in> set xs \<longrightarrow> (\<forall>q. \<forall>v \<in> set (b q). place v = q)"
  shows "walk_inv (mapObjAsync p k xs s)"
  using assms
proof (induction xs arbitrary: k s)
  case Nil
  then show ?case by (simp add: spawn_inv_walk_inv)
next
  case (Cons x xs)
  show ?case
  proof (cases x)
    case None
    with Cons.prems(1) show ?thesis
      by (simp add: spawn_inv_walk_inv walk_inv_failed)
  next
    case (Some bm)
    obtain b m where bm: "bm = (b, m)" by (cases bm)
    have pos: "\<forall>v \<in> set (b (p @ [k])). place v = p @ [k]"
      using Cons.prems(2) Some bm by simp
    have "spawn_inv p (Suc k) (then_continue (b (p @ [k])) (p @ [k], m) s)"
      using Cons.prems(1) pos by (rule spawn_inv_then_continue)
    moreover have "\<forall>b m. Some (b, m) \<in> set xs \<longrightarrow> (\<forall>q. \<forall>v \<in> set (b q). place v = q)"
      using Cons.prems(2) by simp
    ultimately have "walk_inv (mapObjAsync p (Suc k) xs (then_continue (b (p @ [k])) (p @ [k], m) s))"
      by (rule Cons.IH)
    then show ?thesis by (simp add: Some bm)
  qed
qed

lemma distinct_remove_nth:
  assumes "distinct xs" and "i < length xs"
  shows "distinct (take i xs @ drop (Suc i) xs) \<and>
         set (take i xs @ drop (Suc i) xs) = set xs - {xs ! i}"
proof -
  have xs: "xs = take i xs @ xs ! i # drop (Suc i) xs"
    using assms(2) by (rule id_take_nth_drop)
  with assms(1) have d: "distinct (take i xs @ xs ! i # drop (Suc i) xs)" by simp
  then have "distinct (take i xs @ drop (Suc i) xs)" by simp
  moreover have "xs ! i \<notin> set (take i xs @ drop (Suc i) xs)" using d by auto
  moreover have "set xs = insert (xs ! i) (set (take i xs @ drop (Suc i) xs))"
    by (subst xs) simp
  ultimately show ?thesis by auto
qed

lemma spawn_inv_start:
  assumes "walk_inv s" and i: "i < length (pending s)"
  shows "spawn_inv (fst (pending s ! i)) 0
           (s\<lparr>pending := take i (pending s) @ drop (Suc i) (pending s)\<rparr>)"
proof -
  let ?p = "fst (pending s ! i)"
  let ?ps = "take i (pending s) @ drop (Suc i) (pending s)"
  let ?P = "fst ` set (pending s)"
  note r0 = assms(1) [unfolded walk_inv_def]
  note a1 = r0 [THEN conjunct1] and r1 = r0 [THEN conjunct2]
  note a2 = r1 [THEN conjunct1] and r2 = r1 [THEN conjunct2]
  note a3 = r2 [THEN conjunct1] and r3 = r2 [THEN conjunct2]
  note a4 = r3 [THEN conjunct1] and r4 = r3 [THEN conjunct2]
  note a5 = r4 [THEN conjunct1] and r5 = r4 [THEN conjunct2]
  note a6 = r5 [THEN conjunct1] and a7 = r5 [THEN conjunct2]
  have im: "map fst ?ps = take i (map fst (pending s)) @ drop (Suc i) (map fst (pending s))"
    by (simp add: take_map drop_map)
  have li: "i < length (map fst (pending s))" using i by simp
  have nth: "map fst (pending s) ! i = ?p" using i by simp
  from distinct_remove_nth [OF a5 li]
  have dst: "distinct (map fst ?ps) \<and> set (map fst ?ps) = set (map fst (pending s)) - {?p}"
    unfolding im nth .
  then have d: "distinct (map fst ?ps)" ..
  have P: "fst ` set ?ps = ?P - {?p}"
    using dst [THEN conjunct2] by (simp only: set_map)
  have pin: "?p \<in> ?P" using i by (metis image_eqI nth_mem)
  have g3: "\<forall>v \<in> set (trace s). \<forall>q \<in> fst ` set ?ps. \<not> strict_prefix q (place v)"
    using a3 P by blast
  have g4: "\<forall>v \<in> set (trace s). strict_prefix ?p (place v) \<longrightarrow> (\<exists>j<0. place v = ?p @ [j])"
    using a3 pin by blast
  have g5: "\<forall>v \<in> set (trace s). \<not> is_resolved (settled v) \<longrightarrow>
        \<not> prefix (place v) ?p \<and> (\<forall>q \<in> fst ` set ?ps. \<not> prefix (place v) q)"
    using a4 pin P by blast
  have sub: "fst ` set ?ps \<subseteq> ?P" using P by blast
  have sel: "trace (s\<lparr>pending := ?ps\<rparr>) = trace s" "pending (s\<lparr>pending := ?ps\<rparr>) = ?ps"
    "failed (s\<lparr>pending := ?ps\<rparr>) = failed s"
    by simp_all
  have g7: "\<forall>q \<in> fst ` set ?ps. \<forall>q' \<in> fst ` set ?ps. prefix q q' \<longrightarrow> q = q'"
  proof (intro ballI impI)
    fix q q'
    assume "q \<in> fst ` set ?ps" "q' \<in> fst ` set ?ps" and pr: "prefix q q'"
    with sub have "q \<in> ?P" "q' \<in> ?P" by blast+
    with a6 pr show "q = q'" by blast
  qed
  have g8: "\<forall>q \<in> fst ` set ?ps. \<not> prefix q ?p \<and> (prefix ?p q \<longrightarrow> (\<exists>j<0. q = ?p @ [j]))"
  proof
    fix q assume "q \<in> fst ` set ?ps"
    with P have q: "q \<in> ?P" "q \<noteq> ?p" by auto
    have "\<not> prefix q ?p"
    proof
      assume "prefix q ?p"
      with a6 q(1) pin have "q = ?p" by blast
      with q(2) show False by simp
    qed
    moreover have "\<not> prefix ?p q"
    proof
      assume "prefix ?p q"
      with a6 q(1) pin have "?p = q" by blast
      with q(2) show False by simp
    qed
    ultimately show "\<not> prefix q ?p \<and> (prefix ?p q \<longrightarrow> (\<exists>j<0. q = ?p @ [j]))"
      by blast
  qed
  show ?thesis
    unfolding spawn_inv_def sel
    by (intro conjI a1 a2 g3 g4 g5 d g7 g8 a7)
qed

lemma walk_inv_step:
  assumes "positioned callback" and "walk_inv s"
  shows "walk_inv (walk_step callback i s)"
proof (cases "i < length (pending s)")
  case False
  with assms(2) show ?thesis by (simp add: walk_step_def)
next
  case True
  obtain p n where pn: "pending s ! i = (p, n)" by (cases "pending s ! i")
  have "spawn_inv p 0 (s\<lparr>pending := take i (pending s) @ drop (Suc i) (pending s)\<rparr>)"
    using spawn_inv_start [OF assms(2) True] pn by simp
  moreover have "\<forall>b m. Some (b, m) \<in> set (callback n) \<longrightarrow> (\<forall>q. \<forall>v \<in> set (b q). place v = q)"
    using assms(1) unfolding positioned_def by blast
  ultimately have "walk_inv (mapObjAsync p 0 (callback n)
      (s\<lparr>pending := take i (pending s) @ drop (Suc i) (pending s)\<rparr>))"
    by (rule walk_inv_mapObjAsync)
  with True pn show ?thesis by (simp add: walk_step_def)
qed

lemma walk_inv_run:
  assumes "positioned callback" and "walk_inv s"
  shows "walk_inv (walk_run callback schedule s)"
  using assms(2) unfolding walk_run_def
proof (induction schedule arbitrary: s)
  case Nil
  then show ?case by simp
next
  case (Cons i schedule)
  from walk_inv_step [OF assms(1) Cons.prems, of i] show ?case
    by (simp add: Cons.IH)
qed


lemma walk_inv_initial:
  assumes "\<forall>v \<in> set b. place v = []"
  shows "walk_inv (then_continue b ([], n) empty_walk)"
proof -
  have no: "nested_order b" using assms by (rule nested_order_same_place)
  have ba: "barrier b" using assms by (auto simp: barrier_def)
  show ?thesis
    unfolding walk_inv_def
    using no ba assms
    by (auto simp: then_continue_def empty_walk_def list_all_iff)
qed






lemma positioned_traverseInstruction: "positioned (traverseInstruction_then fn)"
  unfolding positioned_def traverseInstruction_then_def mapObj_def
  by (auto split: option.splits property.splits simp: traverseInstruction_batch_def mapObj_def)

lemma walk_inv_traverseInstruction: "walk_inv (traverseInstruction this instruction fn schedule)"
proof (cases instruction)
  case None
  then show ?thesis
    by (simp add: traverseInstruction_def walk_inv_def empty_walk_def barrier_def)
next
  case (Some i)
  have "\<forall>v \<in> set (traverseInstruction_batch fn this i []). place v = []"
    by (auto simp: traverseInstruction_batch_def mapObj_def)
  from walk_inv_run [OF positioned_traverseInstruction walk_inv_initial [OF this]]
  show ?thesis by (simp add: traverseInstruction_def Some)
qed




















section \<open>The order of activation\<close>




section \<open>The guard walk\<close>




end
